theory Spec2Isabelle
  imports Main "HOL-Library.Word" "HOL-Library.Monad_Syntax"
begin

unbundle bit_operations_syntax

section \<open>Machine types\<close>

text \<open>
  The C++ sources use fixed-width unsigned integers; they are words here, so that
  \<open>+\<close>, \<open>-\<close> and \<open>*\<close> wrap around as in the code. A pointer is the address it
  holds, a natural number, and \<open>nullptr\<close> is the address 0.
\<close>

type_synonym u32 = "32 word"
type_synonym u64 = "64 word"
type_synonym ptr = nat

definition nullptr :: ptr where
  "nullptr = 0"

section \<open>CountingSpinlock (spin\_lock.h, spin\_lock.cpp)\<close>

definition c_multiReaderWriter_WriteIncrement :: u32 where
  "c_multiReaderWriter_WriteIncrement = 0x10000"

definition c_multiReaderWriter_WriteMask :: u32 where
  "c_multiReaderWriter_WriteMask = 0xFFFF0000"

definition c_multiReaderWriter_ReadMask :: u32 where
  "c_multiReaderWriter_ReadMask = 0x0000FFFF"

text \<open>
  atomic\_util.h: ``Atomic Add and Subtract functions. Operations are applied and the
  result is returned.'' Each function gives the new content of the variable and the
  value returned, which is that new content.
\<close>

definition AtomicAddU32 :: "u32 \<Rightarrow> u32 \<Rightarrow> u32 \<times> u32" where
  "AtomicAddU32 v addend = (v + addend, v + addend)"

definition AtomicSubtractU32 :: "u32 \<Rightarrow> u32 \<Rightarrow> u32 \<times> u32" where
  "AtomicSubtractU32 v subtrahend = (v - subtrahend, v - subtrahend)"

definition AtomicIncrementU32 :: "u32 \<Rightarrow> u32 \<times> u32" where
  "AtomicIncrementU32 v = (v + 1, v + 1)"

definition AtomicDecrementU32 :: "u32 \<Rightarrow> u32 \<times> u32" where
  "AtomicDecrementU32 v = (v - 1, v - 1)"

subsection \<open>AcquireMultiReaderWriterWriteAccess, one atomic action at a time\<close>

text \<open>
  The lock word is shared, so the function is a transition system: the thread that
  runs it has a program point and its local \<open>numRetriesLeft\<close>, and each step
  performs one access to \<open>lockValue\<close>.

  \<^item> \<open>AMW_FetchAdd\<close>: \<open>nextVal = AtomicAddU32(lockValue, 0x10000)\<close> and the test
    \<open>(nextVal & c_multiReaderWriter_ReadMask) == 0\<close>, which leaves the loop by
    \<open>break\<close>;
  \<^item> \<open>AMW_Undo\<close>: \<open>AtomicSubtractU32(lockValue, 0x10000)\<close>;
  \<^item> \<open>AMW_Spin\<close>: one test of \<open>while ((lockValue & c_multiReaderWriter_ReadMask) != 0)\<close>;
  \<^item> \<open>AMW_Retry\<close>: \<open>--numRetriesLeft\<close> and the loop condition
    \<open>numRetriesLeft > 0\<close>;
  \<^item> \<open>AMW_Returned\<close>: the function has returned.
\<close>

datatype amw_pc = AMW_FetchAdd | AMW_Undo | AMW_Spin | AMW_Retry | AMW_Returned

record amw_thread =
  pc :: amw_pc
  numRetriesLeft :: u32

definition amw_start :: amw_thread where
  "amw_start = \<lparr>pc = AMW_FetchAdd, numRetriesLeft = 0xFFFFFFFF\<rparr>"

definition AcquireMultiReaderWriterWriteAccess_step ::
  "amw_thread \<Rightarrow> u32 \<Rightarrow> amw_thread \<times> u32" where
  "AcquireMultiReaderWriterWriteAccess_step t lockValue =
     (case pc t of
        AMW_FetchAdd \<Rightarrow>
          (case AtomicAddU32 lockValue c_multiReaderWriter_WriteIncrement of
             (lockValue', nextVal) \<Rightarrow>
               if nextVal AND c_multiReaderWriter_ReadMask = 0
               then (t\<lparr>pc := AMW_Returned\<rparr>, lockValue')
               else (t\<lparr>pc := AMW_Undo\<rparr>, lockValue'))
      | AMW_Undo \<Rightarrow>
          (t\<lparr>pc := AMW_Spin\<rparr>,
           fst (AtomicSubtractU32 lockValue c_multiReaderWriter_WriteIncrement))
      | AMW_Spin \<Rightarrow>
          if lockValue AND c_multiReaderWriter_ReadMask \<noteq> 0
          then (t, lockValue)
          else (t\<lparr>pc := AMW_Retry\<rparr>, lockValue)
      | AMW_Retry \<Rightarrow>
          if 0 < numRetriesLeft t - 1
          then (t\<lparr>pc := AMW_FetchAdd, numRetriesLeft := numRetriesLeft t - 1\<rparr>, lockValue)
          else (t\<lparr>pc := AMW_Returned, numRetriesLeft := numRetriesLeft t - 1\<rparr>, lockValue)
      | AMW_Returned \<Rightarrow> (t, lockValue))"

text \<open>
  A run interleaves the thread with the rest of the program: before each step of the
  thread the other threads change the lock word by the next function of the list
  (\<open>id\<close> when they do nothing).
\<close>

fun amw_run :: "(u32 \<Rightarrow> u32) list \<Rightarrow> amw_thread \<times> u32 \<Rightarrow> amw_thread \<times> u32" where
  "amw_run [] s = s"
| "amw_run (env # envs) (t, lockValue) =
     amw_run envs (AcquireMultiReaderWriterWriteAccess_step t (env lockValue))"

subsection \<open>The standard read lock, in a single thread\<close>

text \<open>
  \<open>AcquireReadOnlyAccess\<close> increments the word and proceeds when no writer count is
  set; otherwise it spins on \<open>(lockValue & c_multiReaderWriter_WriteMask) != 0\<close>.
  With no other thread to change the word the spin never ends: the result is \<open>None\<close>.
  The result \<open>Some v\<close> is the lock word on return.
\<close>

definition AcquireReadOnlyAccess :: "u32 \<Rightarrow> u32 option" where
  "AcquireReadOnlyAccess lockValue =
     (case AtomicIncrementU32 lockValue of
        (lockValue', nextVal) \<Rightarrow>
          if nextVal AND c_multiReaderWriter_WriteMask = 0 then Some lockValue'
          else if lockValue' AND c_multiReaderWriter_WriteMask \<noteq> 0 then None
          else Some lockValue')"

definition ReleaseReadOnlyAccess :: "u32 \<Rightarrow> u32" where
  "ReleaseReadOnlyAccess lockValue = fst (AtomicDecrementU32 lockValue)"

section \<open>SimpleLinkedList (simple\_linked\_list.h)\<close>

text \<open>
  The list is intrusive: \<open>pHead\<close> points to the first node and each node's
  \<open>pNext\<close> to the following one. It is represented by the sequence of the node
  addresses met from \<open>pHead\<close> along \<open>pNext\<close> up to the null pointer: the empty
  sequence is \<open>pHead == nullptr\<close>, and \<open>newNode->pNext = pHead; pHead = newNode\<close>
  puts \<open>newNode\<close> in front of the sequence. The fields of a node other than
  \<open>pNext\<close> are in the memory of the pool that owns the node, see below.
\<close>

type_synonym chain = "ptr list"

record SimpleLinkedList =
  pHead :: chain
  lock :: u32

definition Insert_Unsafe :: "ptr \<Rightarrow> chain \<Rightarrow> bool \<times> chain" where
  "Insert_Unsafe newNode c =
     (if newNode = nullptr then (False, c)
      else (True, newNode # c))"

text \<open>
  \<open>Insert\<close> tests the pointer first, then takes the list's read lock, links the node
  with a compare-and-swap of \<open>pHead\<close> and releases the lock on return. In a single
  thread \<open>pHead\<close> is still \<open>currentHead\<close> at the compare-and-swap, which succeeds.
  \<open>None\<close>: the call does not return.
\<close>

definition Insert :: "ptr \<Rightarrow> SimpleLinkedList \<Rightarrow> (bool \<times> SimpleLinkedList) option" where
  "Insert newNode l =
     (if newNode = nullptr then Some (False, l)
      else
        (case AcquireReadOnlyAccess (lock l) of
           None \<Rightarrow> None
         | Some held \<Rightarrow>
             Some (True, \<lparr>pHead = newNode # pHead l, lock = ReleaseReadOnlyAccess held\<rparr>)))"

section \<open>Memory\<close>

text \<open>
  The objects that the pools construct live in a memory that maps the address of an
  object to its content; \<open>None\<close> is storage that holds no object.
  \<open>Util::Construct\<close> puts an object at an address and \<open>Util::Destroy\<close> ends
  it. A function that reads a field through a pointer to no object has no result
  (\<open>None\<close>, as for a call that does not return).
\<close>

type_synonym 'a heap = "ptr \<Rightarrow> 'a option"

definition Construct :: "ptr \<Rightarrow> 'a \<Rightarrow> 'a heap \<Rightarrow> 'a heap" where
  "Construct p obj h = h(p \<mapsto> obj)"

definition Destroy :: "ptr \<Rightarrow> 'a heap \<Rightarrow> 'a heap" where
  "Destroy p h = h(p := None)"

section \<open>FixedSizeObjectPool (fixedsize\_object\_pool.h)\<close>

text \<open>
  The template parameter \<open>Size_T\<close> and \<open>sizeof(Node)\<close> (the slot size in bytes)
  are arguments of each function. \<open>nodes\<close> is the address of the inline slot
  array, so slot \<open>i\<close> is at \<open>nodes + i * sizeof(Node)\<close>. sized\_byte\_type.h is
  not among the sources: the allocation bitmap is the sequence of its \<open>Size_T\<close>
  bits, bit \<open>i\<close> being bit \<open>i mod c_bitIndexSize\<close> of byte
  \<open>i div c_bitIndexSize\<close>, and values of \<open>IndexType\<close> (which holds
  \<open>0..Size_T\<close>) are naturals.
\<close>

record FixedSizeObjectPool =
  nodes :: ptr
  numAllocated :: nat
  bAllocatedBits :: "bool list"
  cachedIteratorIndex :: nat

definition FixedSizeObjectPool_init :: "nat \<Rightarrow> ptr \<Rightarrow> FixedSizeObjectPool" where
  "FixedSizeObjectPool_init Size_T addr =
     \<lparr>nodes = addr, numAllocated = 0, bAllocatedBits = replicate Size_T False,
      cachedIteratorIndex = 0\<rparr>"

definition c_InvalidIndex :: "nat \<Rightarrow> nat" where
  "c_InvalidIndex Size_T = Size_T"

definition c_maxNumNodes :: "nat \<Rightarrow> nat" where
  "c_maxNumNodes Size_T = Size_T"

definition FixedSizeObjectPool_GetIndex ::
  "nat \<Rightarrow> nat \<Rightarrow> FixedSizeObjectPool \<Rightarrow> ptr \<Rightarrow> nat" where
  "FixedSizeObjectPool_GetIndex Size_T sizeofNode pool pData =
     (if nodes pool \<le> pData then
        (let ptrDiff = pData - nodes pool;
             nodeIndex = ptrDiff div sizeofNode;
             remainder = ptrDiff mod sizeofNode
         in if nodeIndex < c_maxNumNodes Size_T \<and> remainder = 0 then nodeIndex
            else c_InvalidIndex Size_T)
      else c_InvalidIndex Size_T)"

definition IsFull :: "nat \<Rightarrow> FixedSizeObjectPool \<Rightarrow> bool" where
  "IsFull Size_T pool = (numAllocated pool = c_maxNumNodes Size_T)"

text \<open>Every caller passes \<open>IsAllocated\<close> an index below \<open>Size_T\<close>.\<close>

definition IsAllocated :: "nat \<Rightarrow> FixedSizeObjectPool \<Rightarrow> nat \<Rightarrow> bool" where
  "IsAllocated Size_T pool nodeIndex =
     (if nodeIndex \<noteq> c_InvalidIndex Size_T then bAllocatedBits pool ! nodeIndex else False)"

definition SetAllocated ::
  "nat \<Rightarrow> FixedSizeObjectPool \<Rightarrow> nat \<Rightarrow> bool \<times> FixedSizeObjectPool" where
  "SetAllocated Size_T pool nodeIndex =
     (if nodeIndex < c_maxNumNodes Size_T then
        (\<not> bAllocatedBits pool ! nodeIndex,
         pool\<lparr>bAllocatedBits := (bAllocatedBits pool)[nodeIndex := True]\<rparr>)
      else (False, pool))"

definition SetDeallocated ::
  "nat \<Rightarrow> FixedSizeObjectPool \<Rightarrow> nat \<Rightarrow> bool \<times> FixedSizeObjectPool" where
  "SetDeallocated Size_T pool nodeIndex =
     (if nodeIndex < c_maxNumNodes Size_T then
        (bAllocatedBits pool ! nodeIndex,
         pool\<lparr>bAllocatedBits := (bAllocatedBits pool)[nodeIndex := False]\<rparr>)
      else (False, pool))"

text \<open>
  \<open>Reserve\<close>: the loop \<open>for (i = 0; i < c_maxNumNodes; ++i)\<close> with its running
  \<open>currentIndex\<close>; the result is the pointer (null when no slot was taken), the pool
  and the memory.
\<close>

function FixedSizeObjectPool_Reserve_loop ::
  "nat \<Rightarrow> nat \<Rightarrow> 'a \<Rightarrow> nat \<Rightarrow> nat \<Rightarrow> FixedSizeObjectPool \<times> 'a heap
     \<Rightarrow> ptr \<times> FixedSizeObjectPool \<times> 'a heap" where
  "FixedSizeObjectPool_Reserve_loop Size_T sizeofNode obj i currentIndex (pool, h) =
     (if i < c_maxNumNodes Size_T then
        (let cur = (if c_maxNumNodes Size_T \<le> currentIndex then 0 else currentIndex)
         in if c_maxNumNodes Size_T \<le> numAllocated pool then (nullptr, pool, h)
            else if \<not> IsAllocated Size_T pool cur then
              (case SetAllocated Size_T pool cur of
                 (bAllocated, pool') \<Rightarrow>
                   if bAllocated then
                     (nodes pool + cur * sizeofNode,
                      pool'\<lparr>cachedIteratorIndex := cur + 1,
                            numAllocated := numAllocated pool' + 1\<rparr>,
                      Construct (nodes pool + cur * sizeofNode) obj h)
                   else FixedSizeObjectPool_Reserve_loop Size_T sizeofNode obj (i + 1) (cur + 1)
                          (pool', h))
            else FixedSizeObjectPool_Reserve_loop Size_T sizeofNode obj (i + 1) (cur + 1)
                   (pool, h))
      else (nullptr, pool, h))"
  by pat_completeness auto
termination
  by (relation "measure (\<lambda>(Size_T, sizeofNode, obj, i, currentIndex, s). c_maxNumNodes Size_T - i)")
    auto

declare FixedSizeObjectPool_Reserve_loop.simps [simp del]

definition FixedSizeObjectPool_Reserve ::
  "nat \<Rightarrow> nat \<Rightarrow> 'a \<Rightarrow> FixedSizeObjectPool \<times> 'a heap
     \<Rightarrow> ptr \<times> FixedSizeObjectPool \<times> 'a heap" where
  "FixedSizeObjectPool_Reserve Size_T sizeofNode obj s =
     FixedSizeObjectPool_Reserve_loop Size_T sizeofNode obj 0 (cachedIteratorIndex (fst s)) s"

text \<open>
  \<open>Release\<close>: the result is \<open>bReleased\<close>, the pool and the memory. The decrement
  of \<open>numAllocated\<close> follows a slot whose bit was set.
\<close>

definition FixedSizeObjectPool_Release ::
  "nat \<Rightarrow> nat \<Rightarrow> FixedSizeObjectPool \<times> 'a heap \<Rightarrow> ptr
     \<Rightarrow> bool \<times> FixedSizeObjectPool \<times> 'a heap" where
  "FixedSizeObjectPool_Release Size_T sizeofNode s pData =
     (case s of (pool, h) \<Rightarrow>
        (let nodeIndex = FixedSizeObjectPool_GetIndex Size_T sizeofNode pool pData
         in if nodeIndex < c_maxNumNodes Size_T then
              (if IsAllocated Size_T pool nodeIndex then
                 (let h' = Destroy (nodes pool + nodeIndex * sizeofNode) h
                  in case SetDeallocated Size_T pool nodeIndex of
                       (bDeallocated, pool') \<Rightarrow>
                         if bDeallocated
                         then (True, pool'\<lparr>numAllocated := numAllocated pool' - 1\<rparr>, h')
                         else (False, pool', h'))
               else (False, pool, h))
            else (False, pool, h)))"

section \<open>PagingObjectPool (paging\_object\_pool.h)\<close>

text \<open>
  What the sources leave open is a parameter of the model: the hash function of the
  keys (hash\_type.h is not among the sources), the address that
  \<open>Util::NewAligned<Page>\<close> returns for the \<open>n\<close>-th page of a pool (memory\_util.h
  is not among the sources; the null pointer when the allocation fails), the size of
  a slot, and the template parameters \<open>PageSize_T\<close> and \<open>NumInnerMaps_T\<close>.
\<close>

record 'k env =
  Hash64 :: "'k \<Rightarrow> u64"
  NewAligned :: "nat \<Rightarrow> ptr"
  sizeof_Node :: nat
  PageSize_T :: nat
  NumInnerMaps_T :: nat

definition c_InvalidPageIndex :: u32 where
  "c_InvalidPageIndex = 0x0FFFFFFF"

definition c_TailPageIndex :: u32 where
  "c_TailPageIndex = 0x0FFFFFFE"

definition c_SwappingPageIndex :: u32 where
  "c_SwappingPageIndex = 0x0FFFFFFD"

definition c_bitIndexHeadPageIndex :: nat where
  "c_bitIndexHeadPageIndex = 0"

definition c_bitIndexHeadNextIndex :: nat where
  "c_bitIndexHeadNextIndex = 28"

definition c_bitIndexHeadCounter :: nat where
  "c_bitIndexHeadCounter = 56"

definition c_headPageIndexMask :: u64 where
  "c_headPageIndexMask = push_bit c_bitIndexHeadPageIndex 0x0FFFFFFF"

definition c_headNextIndexMask :: u64 where
  "c_headNextIndexMask = push_bit c_bitIndexHeadNextIndex 0x0FFFFFFF"

definition c_headCounterMask :: u64 where
  "c_headCounterMask = push_bit c_bitIndexHeadCounter 0xFF"

definition c_emptyFreeListHeadIndex :: u64 where
  "c_emptyFreeListHeadIndex =
     (push_bit c_bitIndexHeadNextIndex (ucast c_TailPageIndex) OR ucast c_TailPageIndex)"

text \<open>The three fields of the packed head word, and the word built from them.\<close>

definition headPageIndex :: "u64 \<Rightarrow> u32" where
  "headPageIndex w = ucast (drop_bit c_bitIndexHeadPageIndex (w AND c_headPageIndexMask))"

definition headNextIndex :: "u64 \<Rightarrow> u32" where
  "headNextIndex w = ucast (drop_bit c_bitIndexHeadNextIndex (w AND c_headNextIndexMask))"

definition headCounter :: "u64 \<Rightarrow> 8 word" where
  "headCounter w = ucast (drop_bit c_bitIndexHeadCounter (w AND c_headCounterMask))"

definition packHead :: "8 word \<Rightarrow> u32 \<Rightarrow> u32 \<Rightarrow> u64" where
  "packHead nextCounter nextHeadNextIndex nextHeadPageIndex =
     (push_bit c_bitIndexHeadCounter (ucast nextCounter)
      OR push_bit c_bitIndexHeadNextIndex (ucast nextHeadNextIndex)
      OR ucast nextHeadPageIndex)"

text \<open>
  \<open>PagingObjectPool::Node\<close> is the object with the index of its page;
  \<open>data\<close> is its first member, so a pointer to the object is a pointer to the node.
\<close>

record 'a PoolNode =
  data :: 'a
  pageIndex :: u32

record Page =
  Page_data :: FixedSizeObjectPool
  Page_pageIndex :: u32
  nextFreeIndex :: u32

text \<open>
  \<open>pPageList\<close> holds the pages in the order of their indices; \<open>numPages\<close> is its
  length, and a \<open>Page*\<close> is the position of the page in it (\<open>None\<close> for the null
  pointer). The page-vector lock is not modelled: in a single thread each scoped
  guard is taken at once and released at the end of its scope.
\<close>

record PagingObjectPool =
  pPageList :: "Page list"
  pageCapacity :: u32
  Pool_count :: u32
  freeListHeadIndex :: u64

definition PagingObjectPool_init :: PagingObjectPool where
  "PagingObjectPool_init =
     \<lparr>pPageList = [], pageCapacity = 0, Pool_count = 0,
      freeListHeadIndex = c_emptyFreeListHeadIndex\<rparr>"

definition numPages :: "PagingObjectPool \<Rightarrow> u32" where
  "numPages pool = of_nat (length (pPageList pool))"

definition page_at :: "PagingObjectPool \<Rightarrow> nat \<Rightarrow> Page option" where
  "page_at pool i = (if i < length (pPageList pool) then Some (pPageList pool ! i) else None)"

text \<open>
  \<open>PushPageToFreeList\<close> in a single thread. The first loop is one compare-and-swap
  of \<open>nextFreeIndex\<close> from INVALID to SWAPPING, skipped when the field is not
  INVALID. In the second loop the compare-and-swap of the head finds the word just
  loaded; when the index test fails the loop repeats without a change, so the call
  does not return (\<open>None\<close>).
\<close>

definition PushPageToFreeList :: "nat option \<Rightarrow> PagingObjectPool \<Rightarrow> PagingObjectPool option" where
  "PushPageToFreeList pPage pool =
     (case pPage of
        None \<Rightarrow> Some pool
      | Some i \<Rightarrow>
          (case page_at pool i of
             None \<Rightarrow> None
           | Some page \<Rightarrow>
               if nextFreeIndex page \<noteq> c_InvalidPageIndex then Some pool
               else
                 (let currFreeListHeadIndex = freeListHeadIndex pool;
                      currFreeListHeadPageIndex = headPageIndex currFreeListHeadIndex;
                      currCounter = headCounter currFreeListHeadIndex;
                      nextHeadPageIndex = Page_pageIndex page;
                      nextHeadNextIndex = currFreeListHeadPageIndex;
                      nextCounter = currCounter + 1
                  in if nextHeadPageIndex < numPages pool
                        \<and> (nextHeadNextIndex < numPages pool \<or> nextHeadNextIndex = c_TailPageIndex)
                     then Some (pool
                       \<lparr>pPageList := (pPageList pool)
                          [i := page\<lparr>nextFreeIndex := currFreeListHeadPageIndex\<rparr>],
                        freeListHeadIndex :=
                          packHead nextCounter nextHeadNextIndex nextHeadPageIndex\<rparr>)
                     else None)))"

text \<open>
  \<open>PopPageFromFreeList\<close> in a single thread. The loop yields
  \<open>poppedPageIndex\<close>; an iteration that neither pops nor finds the list empty
  changes nothing, so the loop does not end (\<open>None\<close>). The result of the function
  is the popped page (the null pointer when the list is empty) and the pool.
\<close>

definition PopPageFromFreeList_loop :: "PagingObjectPool \<Rightarrow> (u32 \<times> PagingObjectPool) option" where
  "PopPageFromFreeList_loop pool =
     (let currFreeListHeadIndex = freeListHeadIndex pool;
          currFreeListHeadPageIndex = headPageIndex currFreeListHeadIndex;
          currFreeListHeadNextIndex = headNextIndex currFreeListHeadIndex;
          currCounter = headCounter currFreeListHeadIndex
      in if currFreeListHeadPageIndex < numPages pool then
           (let pNextPage =
                  (if currFreeListHeadNextIndex < numPages pool
                   then page_at pool (unat currFreeListHeadNextIndex) else None);
                nextHeadPageIndex = currFreeListHeadNextIndex;
                nextHeadNextIndex =
                  (case pNextPage of Some nextPage \<Rightarrow> nextFreeIndex nextPage
                   | None \<Rightarrow> c_TailPageIndex);
                nextCounter = currCounter + 1
            in if nextHeadNextIndex \<noteq> c_InvalidPageIndex
                  \<and> nextHeadNextIndex \<noteq> c_SwappingPageIndex
               then Some (currFreeListHeadPageIndex,
                      pool\<lparr>freeListHeadIndex :=
                             packHead nextCounter nextHeadNextIndex nextHeadPageIndex\<rparr>)
               else None)
         else if currFreeListHeadPageIndex = c_TailPageIndex then Some (c_TailPageIndex, pool)
         else None)"

definition PopPageFromFreeList :: "PagingObjectPool \<Rightarrow> (nat option \<times> PagingObjectPool) option" where
  "PopPageFromFreeList pool =
     (case PopPageFromFreeList_loop pool of
        None \<Rightarrow> None
      | Some (poppedPageIndex, pool1) \<Rightarrow>
          if poppedPageIndex < numPages pool1 then
            (case page_at pool1 (unat poppedPageIndex) of
               None \<Rightarrow> None
             | Some pPoppedPage \<Rightarrow>
                 Some (Some (unat poppedPageIndex),
                   pool1\<lparr>pPageList := (pPageList pool1)
                           [unat poppedPageIndex :=
                              pPoppedPage\<lparr>nextFreeIndex := c_InvalidPageIndex\<rparr>]\<rparr>))
          else Some (None, pool1))"

text \<open>
  \<open>AllocateNewPage\<close>: the page list grows by the new page, whose address is the one
  \<open>Util::NewAligned\<close> returns; \<open>pNewPage->pageIndex = newPageIndex\<close> is executed
  before the pointer is tested, so a failed allocation gives no result.
\<close>

definition c_initialPageCapacity :: u32 where
  "c_initialPageCapacity = 4"

definition AllocateNewPage :: "'k env \<Rightarrow> PagingObjectPool \<Rightarrow> PagingObjectPool option" where
  "AllocateNewPage E pool =
     (let pNewPage = NewAligned E (length (pPageList pool));
          newNumPages = numPages pool + 1;
          pageCapacity' =
            (if pageCapacity pool < newNumPages then
               (let newPageCapacity =
                      (if pageCapacity pool = 0 then c_initialPageCapacity
                       else pageCapacity pool * 2)
                in if newPageCapacity < newNumPages then newNumPages * 2 else newPageCapacity)
             else pageCapacity pool);
          newPageIndex = newNumPages - 1
      in if pNewPage = nullptr then None
         else PushPageToFreeList (Some (length (pPageList pool)))
                (pool\<lparr>pPageList := pPageList pool @
                         [\<lparr>Page_data = FixedSizeObjectPool_init (PageSize_T E) pNewPage,
                           Page_pageIndex = newPageIndex,
                           nextFreeIndex = c_InvalidPageIndex\<rparr>],
                       pageCapacity := pageCapacity'\<rparr>))"

text \<open>
  \<open>Reserve\<close>: the loop \<open>do ... while (pSelectedNode == nullptr)\<close>. Each round pops
  a page and reserves a slot in it, or allocates a page when the free list is empty.
  The object is constructed with \<open>pageIndex = 0\<close>, which is then set to the page's
  index. The result is the pointer to the object, the pool and the memory.
\<close>

partial_function (option) PagingObjectPool_Reserve ::
  "'k env \<Rightarrow> 'a \<Rightarrow> PagingObjectPool \<times> 'a PoolNode heap
     \<Rightarrow> (ptr \<times> PagingObjectPool \<times> 'a PoolNode heap) option" where
  "PagingObjectPool_Reserve E obj s =
     (case s of (pool, h) \<Rightarrow>
       (case PopPageFromFreeList pool of
          None \<Rightarrow> None
        | Some (None, pool1) \<Rightarrow>
            (case AllocateNewPage E pool1 of
               None \<Rightarrow> None
             | Some pool2 \<Rightarrow> PagingObjectPool_Reserve E obj (pool2, h))
        | Some (Some i, pool1) \<Rightarrow>
            (case page_at pool1 i of
               None \<Rightarrow> None
             | Some pPageWithSpace \<Rightarrow>
                 (case FixedSizeObjectPool_Reserve (PageSize_T E) (sizeof_Node E)
                         \<lparr>data = obj, pageIndex = 0\<rparr> (Page_data pPageWithSpace, h) of
                    (pSelectedNode, fsp, h1) \<Rightarrow>
                      if pSelectedNode \<noteq> nullptr then
                        (let h2 = h1(pSelectedNode \<mapsto>
                                   \<lparr>data = obj, pageIndex = Page_pageIndex pPageWithSpace\<rparr>);
                             pool2 = pool1
                               \<lparr>pPageList := (pPageList pool1)[i := pPageWithSpace\<lparr>Page_data := fsp\<rparr>],
                                Pool_count := Pool_count pool1 + 1\<rparr>
                         in if \<not> IsFull (PageSize_T E) fsp then
                              (case PushPageToFreeList (Some i) pool2 of
                                 None \<Rightarrow> None
                               | Some pool3 \<Rightarrow> Some (pSelectedNode, pool3, h2))
                            else Some (pSelectedNode, pool2, h2))
                      else PagingObjectPool_Reserve E obj
                             (pool1\<lparr>pPageList := (pPageList pool1)
                                      [i := pPageWithSpace\<lparr>Page_data := fsp\<rparr>]\<rparr>, h1)))))"

text \<open>
  \<open>Release\<close>: the page is found from the \<open>pageIndex\<close> stored in the node, and is
  pushed onto the free list whether or not the slot was released. The read of
  \<open>pNode->pageIndex\<close> needs an object at \<open>pObject\<close>: where there is none (the pointer
  was never reserved, or its object has been destroyed by an earlier \<open>Release\<close>) the
  model gives no result, although the storage of a released node still holds its page
  index, with which the compiled code returns false. \<open>HashMap\<close> releases only nodes
  that it has just reserved or just unlinked from a chain.
\<close>

definition PagingObjectPool_Release ::
  "'k env \<Rightarrow> PagingObjectPool \<times> 'a PoolNode heap \<Rightarrow> ptr
     \<Rightarrow> (bool \<times> PagingObjectPool \<times> 'a PoolNode heap) option" where
  "PagingObjectPool_Release E s pObject =
     (case s of (pool, h) \<Rightarrow>
        if pObject = nullptr then Some (False, pool, h)
        else
          (case h pObject of
             None \<Rightarrow> None
           | Some pNode \<Rightarrow>
               if pageIndex pNode < numPages pool then
                 (case page_at pool (unat (pageIndex pNode)) of
                    None \<Rightarrow> None
                  | Some pPage \<Rightarrow>
                      (case FixedSizeObjectPool_Release (PageSize_T E) (sizeof_Node E)
                              (Page_data pPage, h) pObject of
                         (bReleased, fsp, h1) \<Rightarrow>
                           (case PushPageToFreeList (Some (unat (pageIndex pNode)))
                                   (pool\<lparr>pPageList := (pPageList pool)
                                            [unat (pageIndex pNode) := pPage\<lparr>Page_data := fsp\<rparr>],
                                         Pool_count :=
                                           (if bReleased then Pool_count pool - 1
                                            else Pool_count pool)\<rparr>) of
                              None \<Rightarrow> None
                            | Some pool1 \<Rightarrow> Some (bReleased, pool1, h1))))
               else Some (False, pool, h)))"

definition PagingObjectPool_Size :: "PagingObjectPool \<Rightarrow> u32" where
  "PagingObjectPool_Size pool = Pool_count pool"

section \<open>Power-of-two table (magic\_num\_util.h)\<close>

definition c_powerOfTwoTable :: "u32 list" where
  "c_powerOfTwoTable =
     [1, 2, 4, 8, 16, 32, 64, 128,
      256, 512, 1024, 2048, 4096, 8192,
      16384, 32768, 65536, 131072, 262144,
      524288, 1048576, 2097152, 4194304,
      8388608, 16777216, 33554432, 67108864,
      134217728, 268435456, 536870912,
      1073741824, 2147483648]"

definition c_numPowerOfTwoEntries :: nat where
  "c_numPowerOfTwoEntries = length c_powerOfTwoTable"

text \<open>The loop returns the first entry that is at least \<open>v\<close>, and the last entry when
  there is none.\<close>

definition GetNextPowerOfTwo :: "u32 \<Rightarrow> u32" where
  "GetNextPowerOfTwo v =
     (case find (\<lambda>entry. v \<le> entry) c_powerOfTwoTable of
        Some entry \<Rightarrow> entry
      | None \<Rightarrow> c_powerOfTwoTable ! (c_numPowerOfTwoEntries - 1))"

section \<open>HashMap (hash\_map.h)\<close>

text \<open>
  A node of the map is the key with its value and the index of the bucket that holds
  it; its \<open>pNext\<close> is in the chain of the bucket. The nodes are objects of the
  shared pool.
\<close>

record ('k, 'v) Node =
  key :: 'k
  "value" :: 'v
  bucket :: u32

type_synonym ('k, 'v) memory = "('k, 'v) Node PoolNode heap"

definition c_invalidBucket :: u32 where
  "c_invalidBucket = 0xFFFFFFFF"

definition c_reassigningBucket :: u32 where
  "c_reassigningBucket = 0xFFFFFFFE"

definition Compare :: "'k::ord \<Rightarrow> 'k \<Rightarrow> int" where
  "Compare a b = (if a < b then - 1 else if a > b then 1 else 0)"

text \<open>
  \<open>ForceChangeKey\<close> and the assignments to \<open>pNode->bucket\<close> write through the
  pointer; through the null pointer or on storage that holds no object they give no
  result.
\<close>

definition ForceChangeKey :: "ptr \<Rightarrow> 'k \<Rightarrow> ('k, 'v) memory \<Rightarrow> ('k, 'v) memory option" where
  "ForceChangeKey pNode newKey h =
     (if pNode = nullptr then None
      else
        (case h pNode of
           None \<Rightarrow> None
         | Some n \<Rightarrow> Some (h(pNode \<mapsto> n\<lparr>data := (data n)\<lparr>key := newKey\<rparr>\<rparr>))))"

definition set_bucket :: "ptr \<Rightarrow> u32 \<Rightarrow> ('k, 'v) memory \<Rightarrow> ('k, 'v) memory option" where
  "set_bucket pNode b h =
     (if pNode = nullptr then None
      else
        (case h pNode of
           None \<Rightarrow> None
         | Some n \<Rightarrow> Some (h(pNode \<mapsto> n\<lparr>data := (data n)\<lparr>bucket := b\<rparr>\<rparr>))))"

subsection \<open>The list operations a bucket uses\<close>

text \<open>
  \<open>Find_Unsafe\<close> and \<open>Erase_Unsafe\<close> walk the chain and compare the key of each
  node with \<open>KeyComparator::Compare\<close>. The result of \<open>Find_Unsafe\<close> is the node
  found or the null pointer; \<open>Erase_Unsafe\<close> gives the unlinked node (or the null
  pointer) and the chain that remains.
\<close>

fun Find_Unsafe :: "('k::ord, 'v) memory \<Rightarrow> chain \<Rightarrow> 'k \<Rightarrow> ptr option" where
  "Find_Unsafe h [] searchKey = Some nullptr"
| "Find_Unsafe h (current # rest) searchKey =
     (case h current of
        None \<Rightarrow> None
      | Some n \<Rightarrow>
          if Compare (key (data n)) searchKey = 0 then Some current
          else Find_Unsafe h rest searchKey)"

fun Erase_Unsafe :: "('k::ord, 'v) memory \<Rightarrow> chain \<Rightarrow> 'k \<Rightarrow> (ptr \<times> chain) option" where
  "Erase_Unsafe h [] searchKey = Some (nullptr, [])"
| "Erase_Unsafe h (current # rest) searchKey =
     (case h current of
        None \<Rightarrow> None
      | Some n \<Rightarrow>
          if Compare (key (data n)) searchKey = 0 then Some (current, rest)
          else
            (case Erase_Unsafe h rest searchKey of
               None \<Rightarrow> None
             | Some (removed, rest') \<Rightarrow> Some (removed, current # rest')))"

subsection \<open>InnerMap\<close>

text \<open>
  \<open>buckets\<close> is the bucket array, one chain for each bucket (the empty array for
  the null pointer); reading \<open>buckets[i]\<close> outside the array gives no result. The
  shard lock is not modelled: in a single thread each scoped guard is taken at once
  and released at the end of its scope, so \<open>X_Concurrent\<close> is \<open>X_Lockless\<close> wherever
  the source only adds the guard.
\<close>

record InnerMap =
  buckets :: "chain list"
  count :: u32
  fillCapacity :: u32
  numBuckets :: u32

definition InnerMap_init :: InnerMap where
  "InnerMap_init = \<lparr>buckets = [], count = 0, fillCapacity = 0, numBuckets = 0\<rparr>"

definition bucket_at :: "chain list \<Rightarrow> u32 \<Rightarrow> chain option" where
  "bucket_at bs i = (if unat i < length bs then Some (bs ! unat i) else None)"

definition GetIndex :: "u32 \<Rightarrow> u64 \<Rightarrow> u32" where
  "GetIndex numBuckets' hash = ucast (hash AND (ucast numBuckets' - 1))"

text \<open>
  \<open>Resize\<close>: \<open>relink_bucket\<close> is the inner loop over the nodes of one old bucket
  and \<open>relink_buckets\<close> the outer loop over the old buckets; both carry the memory
  and the new bucket array. \<open>Util::NewArray\<close> is taken to return an array of
  \<open>newNumBuckets\<close> empty buckets.
\<close>

fun relink_bucket ::
  "'k env \<Rightarrow> u32 \<Rightarrow> chain \<Rightarrow> ('k, 'v) memory \<times> chain list
     \<Rightarrow> (('k, 'v) memory \<times> chain list) option" where
  "relink_bucket E nb [] s = Some s"
| "relink_bucket E nb (pNode # pNextNode) (h, pNewBuckets) =
     (case h pNode of
        None \<Rightarrow> None
      | Some n \<Rightarrow>
          (let hash = Hash64 E (key (data n));
               newBucketIndex = GetIndex nb hash
           in case bucket_at pNewBuckets newBucketIndex of
                None \<Rightarrow> None
              | Some c \<Rightarrow>
                  relink_bucket E nb pNextNode
                    (h(pNode \<mapsto> n\<lparr>data := (data n)\<lparr>bucket := newBucketIndex\<rparr>\<rparr>),
                     pNewBuckets[unat newBucketIndex := snd (Insert_Unsafe pNode c)])))"

fun relink_buckets ::
  "'k env \<Rightarrow> u32 \<Rightarrow> chain list \<Rightarrow> ('k, 'v) memory \<times> chain list
     \<Rightarrow> (('k, 'v) memory \<times> chain list) option" where
  "relink_buckets E nb [] s = Some s"
| "relink_buckets E nb (oldBucket # others) s =
     (case relink_bucket E nb oldBucket s of
        None \<Rightarrow> None
      | Some s' \<Rightarrow> relink_buckets E nb others s')"

definition Resize ::
  "'k env \<Rightarrow> u32 \<Rightarrow> ('k, 'v) memory \<times> InnerMap \<Rightarrow> (('k, 'v) memory \<times> InnerMap) option" where
  "Resize E newNumBuckets s =
     (case s of (h, im) \<Rightarrow>
        (case relink_buckets E newNumBuckets (take (unat (numBuckets im)) (buckets im))
                (h, replicate (unat newNumBuckets) []) of
           None \<Rightarrow> None
         | Some (h', pNewBuckets) \<Rightarrow>
             Some (h', im\<lparr>buckets := pNewBuckets,
                          numBuckets := newNumBuckets,
                          fillCapacity := (newNumBuckets * 7) div 8\<rparr>)))"

text \<open>
  The state of a shard's operation is the memory of the nodes, the shared pool (the
  member \<open>pool\<close> is a reference to it) and the shard. \<open>Insert_Lockless\<close> returns
  the new node, or the null pointer when the key has a node already.
\<close>

definition InnerMap_Insert_Lockless ::
  "'k::ord env \<Rightarrow> u64 \<Rightarrow> 'k \<Rightarrow> 'v \<Rightarrow> ('k, 'v) memory \<times> PagingObjectPool \<times> InnerMap
     \<Rightarrow> (ptr \<times> ('k, 'v) memory \<times> PagingObjectPool \<times> InnerMap) option" where
  "InnerMap_Insert_Lockless E hash k v s =
     (case s of (h, pool, im) \<Rightarrow>
       (let im1 = im\<lparr>count := count im + 1\<rparr>
        in case (if fillCapacity im1 < count im1
                 then Resize E (GetNextPowerOfTwo (count im1 * 2)) (h, im1)
                 else Some (h, im1)) of
             None \<Rightarrow> None
           | Some (h2, im2) \<Rightarrow>
               (let bucket' = GetIndex (numBuckets im2) hash
                in case bucket_at (buckets im2) bucket' of
                     None \<Rightarrow> None
                   | Some c \<Rightarrow>
                       (case Find_Unsafe h2 c k of
                          None \<Rightarrow> None
                        | Some pExisting \<Rightarrow>
                            if pExisting \<noteq> nullptr then Some (nullptr, h2, pool, im2)
                            else
                              (case PagingObjectPool_Reserve E
                                      \<lparr>key = k, value = v, bucket = c_invalidBucket\<rparr> (pool, h2) of
                                 None \<Rightarrow> None
                               | Some (pNewNode, pool3, h3) \<Rightarrow>
                                   (case set_bucket pNewNode bucket' h3 of
                                      None \<Rightarrow> None
                                    | Some h4 \<Rightarrow>
                                        (case Insert_Unsafe pNewNode c of
                                           (bInserted, c') \<Rightarrow>
                                             if bInserted then
                                               Some (pNewNode, h4, pool3,
                                                 im2\<lparr>buckets := (buckets im2)[unat bucket' := c']\<rparr>)
                                             else
                                               (case PagingObjectPool_Release E (pool3, h4) pNewNode of
                                                  None \<Rightarrow> None
                                                | Some (released, pool5, h5) \<Rightarrow>
                                                    Some (nullptr, h5, pool5,
                                                      im2\<lparr>count := count im2 - 1\<rparr>)))))))))"

definition InnerMap_Find_Lockless ::
  "u64 \<Rightarrow> 'k::ord \<Rightarrow> ('k, 'v) memory \<Rightarrow> InnerMap \<Rightarrow> ptr option" where
  "InnerMap_Find_Lockless hash k h im =
     (case bucket_at (buckets im) (GetIndex (numBuckets im) hash) of
        None \<Rightarrow> None
      | Some c \<Rightarrow> Find_Unsafe h c k)"

text \<open>
  \<open>Remove_Lockless\<close> by key, and its specialisation for a \<open>KeyValuePair\<close>, which
  takes the bucket from the node.
\<close>

definition InnerMap_Remove_Lockless ::
  "'k::ord env \<Rightarrow> u64 \<Rightarrow> 'k \<Rightarrow> ('k, 'v) memory \<times> PagingObjectPool \<times> InnerMap
     \<Rightarrow> (bool \<times> ('k, 'v) memory \<times> PagingObjectPool \<times> InnerMap) option" where
  "InnerMap_Remove_Lockless E hash k s =
     (case s of (h, pool, im) \<Rightarrow>
       (let bucket' = GetIndex (numBuckets im) hash
        in case bucket_at (buckets im) bucket' of
             None \<Rightarrow> None
           | Some c \<Rightarrow>
               (case Erase_Unsafe h c k of
                  None \<Rightarrow> None
                | Some (pNode, c') \<Rightarrow>
                    if pNode \<noteq> nullptr then
                      (case h pNode of
                         None \<Rightarrow> None
                       | Some n \<Rightarrow>
                           (case (if bucket (data n) \<noteq> c_reassigningBucket
                                  then PagingObjectPool_Release E (pool, h) pNode
                                  else Some (False, pool, h)) of
                              None \<Rightarrow> None
                            | Some (released, pool1, h1) \<Rightarrow>
                                Some (True, h1, pool1,
                                  im\<lparr>buckets := (buckets im)[unat bucket' := c'],
                                     count := count im - 1\<rparr>)))
                    else Some (False, h, pool, im))))"

definition InnerMap_Remove_Lockless_KeyValuePair ::
  "'k::ord env \<Rightarrow> u64 \<Rightarrow> ptr \<Rightarrow> ('k, 'v) memory \<times> PagingObjectPool \<times> InnerMap
     \<Rightarrow> (bool \<times> ('k, 'v) memory \<times> PagingObjectPool \<times> InnerMap) option" where
  "InnerMap_Remove_Lockless_KeyValuePair E hash pNode s =
     (case s of (h, pool, im) \<Rightarrow>
       (case h pNode of
          None \<Rightarrow> None
        | Some n \<Rightarrow>
            (let bucket' = bucket (data n)
             in if bucket' < numBuckets im then
                  (case bucket_at (buckets im) bucket' of
                     None \<Rightarrow> None
                   | Some c \<Rightarrow>
                       (case Erase_Unsafe h c (key (data n)) of
                          None \<Rightarrow> None
                        | Some (pRemovedNode, c') \<Rightarrow>
                            if pRemovedNode \<noteq> nullptr then
                              (case h pRemovedNode of
                                 None \<Rightarrow> None
                               | Some r \<Rightarrow>
                                   (case (if bucket (data r) \<noteq> c_reassigningBucket
                                          then PagingObjectPool_Release E (pool, h) pRemovedNode
                                          else Some (False, pool, h)) of
                                      None \<Rightarrow> None
                                    | Some (released, pool1, h1) \<Rightarrow>
                                        Some (True, h1, pool1,
                                          im\<lparr>buckets := (buckets im)[unat bucket' := c'],
                                             count := count im - 1\<rparr>)))
                            else Some (False, h, pool, im)))
                else Some (False, h, pool, im))))"

text \<open>
  \<open>ReKey\<close> inside one shard, for a node given by its pointer. The pool is not
  used. In \<open>ReKey_Concurrent\<close> the compare-and-swap of \<open>pNode->bucket\<close> finds
  the value just read; when that value is not below \<open>numBuckets\<close> the loop
  \<open>do ... while (!bAttemptedReKey)\<close> repeats without a change (\<open>None\<close>).
\<close>

definition InnerMap_ReKey_Lockless ::
  "u64 \<Rightarrow> u64 \<Rightarrow> ptr \<Rightarrow> 'k::ord \<Rightarrow> ('k, 'v) memory \<times> InnerMap
     \<Rightarrow> (bool \<times> ('k, 'v) memory \<times> InnerMap) option" where
  "InnerMap_ReKey_Lockless hash newHash pNode newKey s =
     (case s of (h, im) \<Rightarrow>
       (case h pNode of
          None \<Rightarrow> None
        | Some n \<Rightarrow>
            (let oldBucket = bucket (data n);
                 newBucket = GetIndex (numBuckets im) newHash
             in if oldBucket < numBuckets im then
                  (if oldBucket \<noteq> newBucket then
                     (case set_bucket pNode c_reassigningBucket h of
                        None \<Rightarrow> None
                      | Some h1 \<Rightarrow>
                          (case bucket_at (buckets im) oldBucket of
                             None \<Rightarrow> None
                           | Some c \<Rightarrow>
                               (case Erase_Unsafe h1 c (key (data n)) of
                                  None \<Rightarrow> None
                                | Some (pRemovedNode, c') \<Rightarrow>
                                    (case ForceChangeKey pNode newKey h1 of
                                       None \<Rightarrow> None
                                     | Some h2 \<Rightarrow>
                                         (let buckets1 = (buckets im)[unat oldBucket := c']
                                          in if pRemovedNode \<noteq> nullptr then
                                               (case set_bucket pNode newBucket h2 of
                                                  None \<Rightarrow> None
                                                | Some h3 \<Rightarrow>
                                                    (case bucket_at buckets1 newBucket of
                                                       None \<Rightarrow> None
                                                     | Some d \<Rightarrow>
                                                         (case Insert_Unsafe pNode d of
                                                            (bRekeyed, d') \<Rightarrow>
                                                              Some (bRekeyed, h3,
                                                                im\<lparr>buckets :=
                                                                  buckets1[unat newBucket := d']\<rparr>))))
                                             else Some (False, h2, im\<lparr>buckets := buckets1\<rparr>))))))
                   else
                     (case ForceChangeKey pNode newKey h of
                        None \<Rightarrow> None
                      | Some h1 \<Rightarrow> Some (True, h1, im)))
                else Some (False, h, im))))"

definition InnerMap_ReKey_Concurrent ::
  "u64 \<Rightarrow> u64 \<Rightarrow> ptr \<Rightarrow> 'k::ord \<Rightarrow> ('k, 'v) memory \<times> InnerMap
     \<Rightarrow> (bool \<times> ('k, 'v) memory \<times> InnerMap) option" where
  "InnerMap_ReKey_Concurrent hash newHash pNode newKey s =
     (case s of (h, im) \<Rightarrow>
       (case h pNode of
          None \<Rightarrow> None
        | Some n \<Rightarrow>
            (let newBucket = GetIndex (numBuckets im) newHash;
                 oldBucket = bucket (data n)
             in if oldBucket < numBuckets im then
                  (case set_bucket pNode c_reassigningBucket h of
                     None \<Rightarrow> None
                   | Some h1 \<Rightarrow>
                       if oldBucket \<noteq> newBucket then
                         (case bucket_at (buckets im) oldBucket of
                            None \<Rightarrow> None
                          | Some c \<Rightarrow>
                              (case Erase_Unsafe h1 c (key (data n)) of
                                 None \<Rightarrow> None
                               | Some (pRemovedNode, c') \<Rightarrow>
                                   (let buckets1 = (buckets im)[unat oldBucket := c']
                                    in if pRemovedNode \<noteq> nullptr then
                                         (case ForceChangeKey pNode newKey h1 of
                                            None \<Rightarrow> None
                                          | Some h2 \<Rightarrow>
                                              (case set_bucket pNode newBucket h2 of
                                                 None \<Rightarrow> None
                                               | Some h3 \<Rightarrow>
                                                   (case bucket_at buckets1 newBucket of
                                                      None \<Rightarrow> None
                                                    | Some d \<Rightarrow>
                                                        (case Insert_Unsafe pNode d of
                                                           (bRekeyed, d') \<Rightarrow>
                                                             Some (bRekeyed, h3,
                                                               im\<lparr>buckets :=
                                                                 buckets1[unat newBucket := d']\<rparr>)))))
                                       else Some (False, h1, im\<lparr>buckets := buckets1\<rparr>))))
                       else
                         (case ForceChangeKey pNode newKey h1 of
                            None \<Rightarrow> None
                          | Some h2 \<Rightarrow>
                              (case set_bucket pNode newBucket h2 of
                                 None \<Rightarrow> None
                               | Some h3 \<Rightarrow> Some (True, h3, im))))
                else None)))"

subsection \<open>The map\<close>

record ('k, 'v) HashMap =
  mem :: "('k, 'v) memory"
  sharedPool :: PagingObjectPool
  innerMaps :: "InnerMap list"
  totalCount :: u32

definition HashMap_init :: "'k env \<Rightarrow> ('k, 'v) HashMap" where
  "HashMap_init E =
     \<lparr>mem = Map.empty, sharedPool = PagingObjectPool_init,
      innerMaps = replicate (NumInnerMaps_T E) InnerMap_init, totalCount = 0\<rparr>"

definition c_innerMapIndexMask :: "'k env \<Rightarrow> u64" where
  "c_innerMapIndexMask E = of_nat (NumInnerMaps_T E) - 1"

definition GetInnerMapIndex :: "'k env \<Rightarrow> u64 \<Rightarrow> u32" where
  "GetInnerMapIndex E hash = ucast (hash AND c_innerMapIndexMask E)"

definition innerMap_at :: "('k, 'v) HashMap \<Rightarrow> u32 \<Rightarrow> InnerMap option" where
  "innerMap_at hm i =
     (if unat i < length (innerMaps hm) then Some (innerMaps hm ! unat i) else None)"

definition Insert_Lockless ::
  "'k::ord env \<Rightarrow> 'k \<Rightarrow> 'v \<Rightarrow> ('k, 'v) HashMap \<Rightarrow> (ptr \<times> ('k, 'v) HashMap) option" where
  "Insert_Lockless E k v hm =
     (let hash = Hash64 E k;
          mapIndex = GetInnerMapIndex E hash
      in case innerMap_at hm mapIndex of
           None \<Rightarrow> None
         | Some im \<Rightarrow>
             (case InnerMap_Insert_Lockless E hash k v (mem hm, sharedPool hm, im) of
                None \<Rightarrow> None
              | Some (pAdded, h, pool, im') \<Rightarrow>
                  Some (pAdded,
                    hm\<lparr>mem := h, sharedPool := pool,
                       innerMaps := (innerMaps hm)[unat mapIndex := im'],
                       totalCount := (if pAdded \<noteq> nullptr then totalCount hm + 1
                                      else totalCount hm)\<rparr>)))"

definition Insert_Concurrent ::
  "'k::ord env \<Rightarrow> 'k \<Rightarrow> 'v \<Rightarrow> ('k, 'v) HashMap \<Rightarrow> (ptr \<times> ('k, 'v) HashMap) option" where
  "Insert_Concurrent E k v hm = Insert_Lockless E k v hm"

definition Find_Lockless :: "'k::ord env \<Rightarrow> 'k \<Rightarrow> ('k, 'v) HashMap \<Rightarrow> ptr option" where
  "Find_Lockless E k hm =
     (let hash = Hash64 E k;
          mapIndex = GetInnerMapIndex E hash
      in case innerMap_at hm mapIndex of
           None \<Rightarrow> None
         | Some im \<Rightarrow> InnerMap_Find_Lockless hash k (mem hm) im)"

definition Find_Concurrent :: "'k::ord env \<Rightarrow> 'k \<Rightarrow> ('k, 'v) HashMap \<Rightarrow> ptr option" where
  "Find_Concurrent E k hm = Find_Lockless E k hm"

definition Remove_Lockless ::
  "'k::ord env \<Rightarrow> 'k \<Rightarrow> ('k, 'v) HashMap \<Rightarrow> (bool \<times> ('k, 'v) HashMap) option" where
  "Remove_Lockless E k hm =
     (let hash = Hash64 E k;
          mapIndex = GetInnerMapIndex E hash
      in case innerMap_at hm mapIndex of
           None \<Rightarrow> None
         | Some im \<Rightarrow>
             (case InnerMap_Remove_Lockless E hash k (mem hm, sharedPool hm, im) of
                None \<Rightarrow> None
              | Some (bRemoved, h, pool, im') \<Rightarrow>
                  Some (bRemoved,
                    hm\<lparr>mem := h, sharedPool := pool,
                       innerMaps := (innerMaps hm)[unat mapIndex := im'],
                       totalCount := (if bRemoved then totalCount hm - 1
                                      else totalCount hm)\<rparr>)))"

definition Remove_Concurrent ::
  "'k::ord env \<Rightarrow> 'k \<Rightarrow> ('k, 'v) HashMap \<Rightarrow> (bool \<times> ('k, 'v) HashMap) option" where
  "Remove_Concurrent E k hm = Remove_Lockless E k hm"

text \<open>
  \<open>ReKey\<close> for a node given by its pointer. Both shards are those of the map after
  the preceding step; \<open>std::move(pNode->value)\<close> passes the node's value.
\<close>

definition ReKey_Lockless_KeyValuePair ::
  "'k::ord env \<Rightarrow> ptr \<Rightarrow> 'k \<Rightarrow> ('k, 'v) HashMap \<Rightarrow> (bool \<times> ('k, 'v) HashMap) option" where
  "ReKey_Lockless_KeyValuePair E pNode newKey hm =
     (case mem hm pNode of
        None \<Rightarrow> None
      | Some n \<Rightarrow>
          (let oldHash = Hash64 E (key (data n));
               oldMapIndex = GetInnerMapIndex E oldHash;
               newHash = Hash64 E newKey;
               newMapIndex = GetInnerMapIndex E newHash
           in if oldMapIndex = newMapIndex then
                (case innerMap_at hm oldMapIndex of
                   None \<Rightarrow> None
                 | Some im \<Rightarrow>
                     (case InnerMap_ReKey_Lockless oldHash newHash pNode newKey (mem hm, im) of
                        None \<Rightarrow> None
                      | Some (bRekeyed, h, im') \<Rightarrow>
                          Some (bRekeyed,
                            hm\<lparr>mem := h, innerMaps := (innerMaps hm)[unat oldMapIndex := im']\<rparr>)))
              else
                (case set_bucket pNode c_reassigningBucket (mem hm) of
                   None \<Rightarrow> None
                 | Some h1 \<Rightarrow>
                     (case innerMap_at hm oldMapIndex of
                        None \<Rightarrow> None
                      | Some im \<Rightarrow>
                          (case InnerMap_Remove_Lockless_KeyValuePair E oldHash pNode
                                  (h1, sharedPool hm, im) of
                             None \<Rightarrow> None
                           | Some (bRemovedNode, h2, pool2, im') \<Rightarrow>
                               (let hm2 = hm\<lparr>mem := h2, sharedPool := pool2,
                                             innerMaps := (innerMaps hm)[unat oldMapIndex := im']\<rparr>
                                in if bRemovedNode then
                                     (case ForceChangeKey pNode newKey h2 of
                                        None \<Rightarrow> None
                                      | Some h3 \<Rightarrow>
                                          (case set_bucket pNode c_invalidBucket h3 of
                                             None \<Rightarrow> None
                                           | Some h4 \<Rightarrow>
                                               (case (h4 pNode, innerMap_at hm2 newMapIndex) of
                                                  (Some m, Some im2) \<Rightarrow>
                                                    (case InnerMap_Insert_Lockless E newHash
                                                            (key (data m)) (value (data m))
                                                            (h4, pool2, im2) of
                                                       None \<Rightarrow> None
                                                     | Some (pAdded, h5, pool5, im2') \<Rightarrow>
                                                         Some (pAdded \<noteq> nullptr,
                                                           hm2\<lparr>mem := h5, sharedPool := pool5,
                                                               innerMaps := (innerMaps hm2)
                                                                 [unat newMapIndex := im2'],
                                                               totalCount :=
                                                                 (if pAdded \<noteq> nullptr
                                                                  then totalCount hm2
                                                                  else totalCount hm2 - 1)\<rparr>))
                                                | _ \<Rightarrow> None)))
                                   else Some (False, hm2)))))))"

definition ReKey_Concurrent_KeyValuePair ::
  "'k::ord env \<Rightarrow> ptr \<Rightarrow> 'k \<Rightarrow> ('k, 'v) HashMap \<Rightarrow> (bool \<times> ('k, 'v) HashMap) option" where
  "ReKey_Concurrent_KeyValuePair E pNode newKey hm =
     (case mem hm pNode of
        None \<Rightarrow> None
      | Some n \<Rightarrow>
          (let oldHash = Hash64 E (key (data n));
               oldMapIndex = GetInnerMapIndex E oldHash;
               newHash = Hash64 E newKey;
               newMapIndex = GetInnerMapIndex E newHash
           in if oldMapIndex = newMapIndex then
                (case innerMap_at hm oldMapIndex of
                   None \<Rightarrow> None
                 | Some im \<Rightarrow>
                     (case InnerMap_ReKey_Concurrent oldHash newHash pNode newKey (mem hm, im) of
                        None \<Rightarrow> None
                      | Some (bRekeyed, h, im') \<Rightarrow>
                          Some (bRekeyed,
                            hm\<lparr>mem := h, innerMaps := (innerMaps hm)[unat oldMapIndex := im']\<rparr>)))
              else
                (case set_bucket pNode c_reassigningBucket (mem hm) of
                   None \<Rightarrow> None
                 | Some h1 \<Rightarrow>
                     (case innerMap_at hm oldMapIndex of
                        None \<Rightarrow> None
                      | Some im \<Rightarrow>
                          (case InnerMap_Remove_Lockless_KeyValuePair E oldHash pNode
                                  (h1, sharedPool hm, im) of
                             None \<Rightarrow> None
                           | Some (bRemovedNode, h2, pool2, im') \<Rightarrow>
                               (let hm2 = hm\<lparr>mem := h2, sharedPool := pool2,
                                             innerMaps := (innerMaps hm)[unat oldMapIndex := im']\<rparr>
                                in if bRemovedNode then
                                     (case ForceChangeKey pNode newKey h2 of
                                        None \<Rightarrow> None
                                      | Some h3 \<Rightarrow>
                                          (case set_bucket pNode c_invalidBucket h3 of
                                             None \<Rightarrow> None
                                           | Some h4 \<Rightarrow>
                                               (case (h4 pNode, innerMap_at hm2 newMapIndex) of
                                                  (Some m, Some im2) \<Rightarrow>
                                                    (case InnerMap_Insert_Lockless E newHash
                                                            (key (data m)) (value (data m))
                                                            (h4, pool2, im2) of
                                                       None \<Rightarrow> None
                                                     | Some (pAdded, h5, pool5, im2') \<Rightarrow>
                                                         Some (pAdded \<noteq> nullptr,
                                                           hm2\<lparr>mem := h5, sharedPool := pool5,
                                                               innerMaps := (innerMaps hm2)
                                                                 [unat newMapIndex := im2'],
                                                               totalCount :=
                                                                 (if pAdded \<noteq> nullptr
                                                                  then totalCount hm2
                                                                  else totalCount hm2 - 1)\<rparr>))
                                                | _ \<Rightarrow> None)))
                                   else Some (False, hm2)))))))"

definition ReKey_Lockless ::
  "'k::ord env \<Rightarrow> 'k \<Rightarrow> 'k \<Rightarrow> ('k, 'v) HashMap \<Rightarrow> (bool \<times> ('k, 'v) HashMap) option" where
  "ReKey_Lockless E k newKey hm =
     (case Find_Lockless E k hm of
        None \<Rightarrow> None
      | Some pValue \<Rightarrow>
          if pValue \<noteq> nullptr then ReKey_Lockless_KeyValuePair E pValue newKey hm
          else Some (False, hm))"

definition ReKey_Concurrent ::
  "'k::ord env \<Rightarrow> 'k \<Rightarrow> 'k \<Rightarrow> ('k, 'v) HashMap \<Rightarrow> (bool \<times> ('k, 'v) HashMap) option" where
  "ReKey_Concurrent E k newKey hm =
     (case Find_Concurrent E k hm of
        None \<Rightarrow> None
      | Some pValue \<Rightarrow>
          if pValue \<noteq> nullptr then ReKey_Concurrent_KeyValuePair E pValue newKey hm
          else Some (False, hm))"

definition Size :: "('k, 'v) HashMap \<Rightarrow> u32" where
  "Size hm = totalCount hm"

text \<open>
  The interface in the style of \<open>std::map\<close> (\<open>HashMap_insert\<close> is \<open>insert\<close>, and so on).
  \<open>HashMap_find\<close> returns \<open>Some v\<close> when it
  returns true with \<open>pOutValue\<close> pointing to the value \<open>v\<close>, and \<open>None\<close> when it
  returns false.
\<close>

definition HashMap_insert ::
  "'k::ord env \<Rightarrow> 'k \<Rightarrow> 'v \<Rightarrow> ('k, 'v) HashMap \<Rightarrow> (bool \<times> ('k, 'v) HashMap) option" where
  "HashMap_insert E k v hm =
     (case Insert_Concurrent E k v hm of
        None \<Rightarrow> None
      | Some (pAdded, hm') \<Rightarrow> Some (pAdded \<noteq> nullptr, hm'))"

definition HashMap_insert_lockless ::
  "'k::ord env \<Rightarrow> 'k \<Rightarrow> 'v \<Rightarrow> ('k, 'v) HashMap \<Rightarrow> (bool \<times> ('k, 'v) HashMap) option" where
  "HashMap_insert_lockless E k v hm =
     (case Insert_Lockless E k v hm of
        None \<Rightarrow> None
      | Some (pAdded, hm') \<Rightarrow> Some (pAdded \<noteq> nullptr, hm'))"

definition HashMap_find :: "'k::ord env \<Rightarrow> 'k \<Rightarrow> ('k, 'v) HashMap \<Rightarrow> 'v option option" where
  "HashMap_find E k hm =
     (case Find_Concurrent E k hm of
        None \<Rightarrow> None
      | Some pPair \<Rightarrow>
          if pPair \<noteq> nullptr then
            (case mem hm pPair of
               None \<Rightarrow> None
             | Some n \<Rightarrow> Some (Some (value (data n))))
          else Some None)"

definition HashMap_erase ::
  "'k::ord env \<Rightarrow> 'k \<Rightarrow> ('k, 'v) HashMap \<Rightarrow> (bool \<times> ('k, 'v) HashMap) option" where
  "HashMap_erase E k hm = Remove_Concurrent E k hm"

definition HashMap_rekey ::
  "'k::ord env \<Rightarrow> 'k \<Rightarrow> 'k \<Rightarrow> ('k, 'v) HashMap \<Rightarrow> (bool \<times> ('k, 'v) HashMap) option" where
  "HashMap_rekey E k newKey hm = ReKey_Concurrent E k newKey hm"

definition HashMap_rekey_lockless ::
  "'k::ord env \<Rightarrow> 'k \<Rightarrow> 'k \<Rightarrow> ('k, 'v) HashMap \<Rightarrow> (bool \<times> ('k, 'v) HashMap) option" where
  "HashMap_rekey_lockless E k newKey hm = ReKey_Lockless E k newKey hm"

definition HashMap_size :: "('k, 'v) HashMap \<Rightarrow> nat" where
  "HashMap_size hm = unat (Size hm)"

declare PagingObjectPool_Reserve.simps [code]

section \<open>Sequences of operations\<close>

text \<open>
  An operation of the interface, and a run of a sequence of operations in which every
  operation returns; the result of the run is the map after the last operation.
\<close>

datatype ('k, 'v) operation = Op_insert 'k 'v | Op_erase 'k | Op_rekey 'k 'k

fun apply_operation ::
  "'k::ord env \<Rightarrow> ('k, 'v) operation \<Rightarrow> ('k, 'v) HashMap \<Rightarrow> (bool \<times> ('k, 'v) HashMap) option" where
  "apply_operation E (Op_insert k v) hm = HashMap_insert E k v hm"
| "apply_operation E (Op_erase k) hm = HashMap_erase E k hm"
| "apply_operation E (Op_rekey k newKey) hm = HashMap_rekey E k newKey hm"

fun run_operations ::
  "'k::ord env \<Rightarrow> ('k, 'v) operation list \<Rightarrow> ('k, 'v) HashMap \<Rightarrow> ('k, 'v) HashMap option" where
  "run_operations E [] hm = Some hm"
| "run_operations E (x # xs) hm =
     (case apply_operation E x hm of
        None \<Rightarrow> None
      | Some (r, hm') \<Rightarrow> run_operations E xs hm')"

text \<open>What the claims observe of a map.\<close>

definition reachable_nodes :: "InnerMap \<Rightarrow> ptr list" where
  "reachable_nodes im = concat (buckets im)"

definition count_and_nodes :: "('k, 'v) HashMap \<Rightarrow> (nat \<times> nat) list" where
  "count_and_nodes hm = map (\<lambda>im. (unat (count im), length (reachable_nodes im))) (innerMaps hm)"

definition size_and_pool_count :: "('k, 'v) HashMap \<Rightarrow> nat \<times> nat" where
  "size_and_pool_count hm = (HashMap_size hm, unat (PagingObjectPool_Size (sharedPool hm)))"

text \<open>
  An instance of the parameters for the concrete runs: keys are 64-bit integers hashed
  by the identity, the map has four shards and pages of eight slots of 48 bytes, and
  page \<open>n\<close> is allocated at address \<open>4096 * (n + 1)\<close>.
\<close>

definition example_NewAligned :: "nat \<Rightarrow> ptr" where
  "example_NewAligned n = 4096 * (n + 1)"

definition example_env :: "u64 env" where
  "example_env =
     \<lparr>Hash64 = id, NewAligned = example_NewAligned, sizeof_Node = 48, PageSize_T = 8,
      NumInnerMaps_T = 4\<rparr>"

definition example_empty :: "(u64, u64) HashMap" where
  "example_empty = HashMap_init example_env"

section \<open>The free-page list as a sequence\<close>

text \<open>
  \<open>is_free_chain pages i xs\<close>: following \<open>nextFreeIndex\<close> from the page index
  \<open>i\<close> visits the pages at the positions \<open>xs\<close> and ends at TAIL.
  \<open>free_list_inv pool xs\<close>: the pages enqueued on the free-page list of the pool
  are those at the positions \<open>xs\<close>, from the head; the next-link field of the head
  word is the link of the head page; every page knows its index; and a page's
  \<open>nextFreeIndex\<close> is INVALID exactly when the page is not enqueued.
\<close>

definition c_MaxPages :: u32 where
  "c_MaxPages = c_TailPageIndex - 1"

fun is_free_chain :: "Page list \<Rightarrow> u32 \<Rightarrow> nat list \<Rightarrow> bool" where
  "is_free_chain pages i [] \<longleftrightarrow> i = c_TailPageIndex"
| "is_free_chain pages i (x # xs) \<longleftrightarrow>
     i = of_nat x \<and> x < length pages \<and> is_free_chain pages (nextFreeIndex (pages ! x)) xs"

definition free_list_inv :: "PagingObjectPool \<Rightarrow> nat list \<Rightarrow> bool" where
  "free_list_inv pool xs \<longleftrightarrow>
     length (pPageList pool) \<le> unat c_MaxPages
   \<and> (\<forall>i < length (pPageList pool). Page_pageIndex (pPageList pool ! i) = of_nat i)
   \<and> is_free_chain (pPageList pool) (headPageIndex (freeListHeadIndex pool)) xs
   \<and> distinct xs
   \<and> headNextIndex (freeListHeadIndex pool)
       = (case xs of [] \<Rightarrow> c_TailPageIndex | x # rest \<Rightarrow> nextFreeIndex (pPageList pool ! x))
   \<and> (\<forall>i < length (pPageList pool).
         nextFreeIndex (pPageList pool ! i) = c_InvalidPageIndex \<longleftrightarrow> i \<notin> set xs)"

text \<open>The pages of a pool have been allocated: none has the null address.\<close>

definition pages_ok :: "PagingObjectPool \<Rightarrow> bool" where
  "pages_ok pool \<longleftrightarrow>
     (\<forall>j < length (pPageList pool). nodes (Page_data (pPageList pool ! j)) \<noteq> nullptr)"

text \<open>
  A pool of two pages for the concrete cases: page 0 is the only page on the
  free-page list, page 1 is off the list.
\<close>

definition example_pool :: PagingObjectPool where
  "example_pool =
     \<lparr>pPageList =
        [\<lparr>Page_data = FixedSizeObjectPool_init 8 4096, Page_pageIndex = 0,
          nextFreeIndex = c_TailPageIndex\<rparr>,
         \<lparr>Page_data = FixedSizeObjectPool_init 8 8192, Page_pageIndex = 1,
          nextFreeIndex = c_InvalidPageIndex\<rparr>],
      pageCapacity = 4, Pool_count = 0,
      freeListHeadIndex = packHead 1 c_TailPageIndex 0\<rparr>"

section \<open>Invariants of a shard and of the map\<close>

text \<open>
  \<open>is_pow2 n\<close>: \<open>n\<close> is one of the 32 powers of two of a 32-bit word.
  \<open>node_key\<close>, \<open>node_value\<close> and \<open>node_bucket\<close> read the fields of the node at an
  address. \<open>shard_wf E h im\<close>: the shard has a bucket array of \<open>numBuckets\<close> chains,
  \<open>numBuckets\<close> being a power of two, and every node of a chain is a constructed
  object, not at the null address, whose key hashes to the bucket of that chain. Two
  nodes may hold the same key, and the fields \<open>count\<close>, \<open>fillCapacity\<close> and the
  \<open>bucket\<close> of a node are not constrained.
  \<open>new_index E nb h q\<close> is the bucket of the node \<open>q\<close> in an array of \<open>nb\<close> buckets,
  and \<open>set_bucket_field\<close> writes the field \<open>bucket\<close> of a node.
\<close>

definition is_pow2 :: "u32 \<Rightarrow> bool" where
  "is_pow2 n \<longleftrightarrow> (\<exists>j < 32. n = 2 ^ j)"

definition node_key :: "('k, 'v) memory \<Rightarrow> ptr \<Rightarrow> 'k option" where
  "node_key h q = map_option (\<lambda>n. key (data n)) (h q)"

definition node_value :: "('k, 'v) memory \<Rightarrow> ptr \<Rightarrow> 'v option" where
  "node_value h q = map_option (\<lambda>n. value (data n)) (h q)"

definition node_bucket :: "('k, 'v) memory \<Rightarrow> ptr \<Rightarrow> u32 option" where
  "node_bucket h q = map_option (\<lambda>n. bucket (data n)) (h q)"

definition shard_wf :: "'k env \<Rightarrow> ('k, 'v) memory \<Rightarrow> InnerMap \<Rightarrow> bool" where
  "shard_wf E h im \<longleftrightarrow>
     is_pow2 (numBuckets im)
   \<and> length (buckets im) = unat (numBuckets im)
   \<and> (\<forall>b < length (buckets im). \<forall>q \<in> set (buckets im ! b).
         q \<noteq> nullptr
       \<and> (\<exists>k. node_key h q = Some k \<and> unat (GetIndex (numBuckets im) (Hash64 E k)) = b))"

definition new_index :: "'k env \<Rightarrow> u32 \<Rightarrow> ('k, 'v) memory \<Rightarrow> ptr \<Rightarrow> u32" where
  "new_index E nb h q = GetIndex nb (Hash64 E (the (node_key h q)))"

definition set_bucket_field :: "u32 \<Rightarrow> ('k, 'v) Node PoolNode \<Rightarrow> ('k, 'v) Node PoolNode" where
  "set_bucket_field b n = n\<lparr>data := (data n)\<lparr>bucket := b\<rparr>\<rparr>"

text \<open>
  \<open>shard_ok\<close>: the shard is as constructed (no bucket array) or satisfies
  \<open>shard_wf\<close>. \<open>pool_ok\<close>: the free-page list of the pool is well formed, every
  page has been allocated, one more page index is available, the allocator returns
  storage and a page has room for one object at least.
\<close>

definition shard_ok :: "'k env \<Rightarrow> ('k, 'v) memory \<Rightarrow> InnerMap \<Rightarrow> bool" where
  "shard_ok E h im \<longleftrightarrow> im = InnerMap_init \<or> shard_wf E h im"

definition pool_ok :: "'k env \<Rightarrow> PagingObjectPool \<Rightarrow> bool" where
  "pool_ok E pool \<longleftrightarrow>
     (\<exists>xs. free_list_inv pool xs) \<and> pages_ok pool
   \<and> length (pPageList pool) < unat c_MaxPages
   \<and> (\<forall>n. NewAligned E n \<noteq> nullptr) \<and> 0 < PageSize_T E"

text \<open>
  \<open>shard_of E hm k\<close> is the shard that \<open>GetInnerMapIndex\<close> selects for the key
  \<open>k\<close>. \<open>map_wf\<close>: the number of shards is a power of two (the
  \<open>static_assert\<close> of \<open>HashMap\<close>) and every shard is \<open>shard_ok\<close> in the memory of
  the map. \<open>present E hm k\<close>: \<open>find(k)\<close> returns true. \<open>held_once E hm k\<close>: no two
  nodes of the shard of \<open>k\<close> hold the key \<open>k\<close>.
\<close>

definition shard_of :: "'k env \<Rightarrow> ('k, 'v) HashMap \<Rightarrow> 'k \<Rightarrow> InnerMap" where
  "shard_of E hm k = innerMaps hm ! unat (GetInnerMapIndex E (Hash64 E k))"

definition map_wf :: "'k env \<Rightarrow> ('k, 'v) HashMap \<Rightarrow> bool" where
  "map_wf E hm \<longleftrightarrow>
     (\<exists>j < 32. NumInnerMaps_T E = 2 ^ j)
   \<and> length (innerMaps hm) = NumInnerMaps_T E
   \<and> (\<forall>i < length (innerMaps hm). shard_ok E (mem hm) (innerMaps hm ! i))"

definition present :: "'k::ord env \<Rightarrow> ('k, 'v) HashMap \<Rightarrow> 'k \<Rightarrow> bool" where
  "present E hm k = (case HashMap_find E k hm of Some (Some v) \<Rightarrow> True | _ \<Rightarrow> False)"

definition held_once :: "'k env \<Rightarrow> ('k, 'v) HashMap \<Rightarrow> 'k \<Rightarrow> bool" where
  "held_once E hm k \<longleftrightarrow>
     (\<forall>q \<in> set (reachable_nodes (shard_of E hm k)).
      \<forall>q' \<in> set (reachable_nodes (shard_of E hm k)).
        node_key (mem hm) q = Some k \<and> node_key (mem hm) q' = Some k \<longrightarrow> q = q')"

text \<open>
  For the concrete cases: an allocator that returns the null pointer and the map
  constructed with it; \<open>insert_observation\<close>, which gives what \<open>find(k)\<close> returns
  before \<open>insert(k, v)\<close>, the result of the insertion and what \<open>find(k)\<close> returns
  after it; and the map \<open>example_two\<close>, which is \<open>example_empty\<close> after
  \<open>insert(1, 10)\<close> and \<open>insert(5, 50)\<close> (both keys belong to shard 1 and, of its four
  buckets, to bucket 1). \<open>map_view ps hm\<close> is the map \<open>hm\<close> with its memory read at
  the addresses \<open>ps\<close>.
\<close>

definition failing_NewAligned :: "nat \<Rightarrow> ptr" where
  "failing_NewAligned n = nullptr"

definition failing_env :: "u64 env" where
  "failing_env = example_env\<lparr>NewAligned := failing_NewAligned\<rparr>"

definition failing_empty :: "(u64, u64) HashMap" where
  "failing_empty = HashMap_init failing_env"

definition insert_observation ::
  "'k::ord env \<Rightarrow> 'k \<Rightarrow> 'v \<Rightarrow> ('k, 'v) HashMap
     \<Rightarrow> ('v option option \<times> bool \<times> 'v option option) option" where
  "insert_observation E k v hm =
     (case HashMap_insert E k v hm of
        None \<Rightarrow> None
      | Some (b, hm') \<Rightarrow> Some (HashMap_find E k hm, b, HashMap_find E k hm'))"

definition map_view ::
  "ptr list \<Rightarrow> ('k, 'v) HashMap
     \<Rightarrow> ('k, 'v) Node PoolNode option list \<times> PagingObjectPool \<times> InnerMap list \<times> u32" where
  "map_view ps hm = (map (mem hm) ps, sharedPool hm, innerMaps hm, totalCount hm)"

definition example_two :: "(u64, u64) HashMap" where
  "example_two =
     \<lparr>mem = [4096 \<mapsto> \<lparr>data = \<lparr>key = 1, value = 10, bucket = 1\<rparr>, pageIndex = 0\<rparr>,
             4144 \<mapsto> \<lparr>data = \<lparr>key = 5, value = 50, bucket = 1\<rparr>, pageIndex = 0\<rparr>],
      sharedPool =
        \<lparr>pPageList =
           [\<lparr>Page_data =
               \<lparr>nodes = 4096, numAllocated = 2,
                bAllocatedBits = [True, True, False, False, False, False, False, False],
                cachedIteratorIndex = 2\<rparr>,
             Page_pageIndex = 0, nextFreeIndex = c_TailPageIndex\<rparr>],
         pageCapacity = 4, Pool_count = 2,
         freeListHeadIndex = packHead 5 c_TailPageIndex 0\<rparr>,
      innerMaps =
        [InnerMap_init,
         \<lparr>buckets = [[], [4144, 4096], [], []], count = 2, fillCapacity = 3, numBuckets = 4\<rparr>,
         InnerMap_init, InnerMap_init],
      totalCount = 2\<rparr>"

text \<open>
  For the concrete cases of the resize policy: \<open>bucket_counts\<close> gives the length of
  the bucket array of every shard, and \<open>example_shard_at_capacity\<close> is shard 1 of
  \<open>example_two\<close> with \<open>count\<close> at the fill capacity, as \<open>insert(1, 20)\<close> leaves it
  in the map \<open>example_at_capacity\<close>.
\<close>

definition bucket_counts :: "('k, 'v) HashMap \<Rightarrow> u32 list" where
  "bucket_counts hm = map numBuckets (innerMaps hm)"

definition example_shard_at_capacity :: InnerMap where
  "example_shard_at_capacity =
     \<lparr>buckets = [[], [4144, 4096], [], []], count = 3, fillCapacity = 3, numBuckets = 4\<rparr>"

definition example_at_capacity :: "(u64, u64) HashMap" where
  "example_at_capacity =
     example_two\<lparr>innerMaps :=
       [InnerMap_init, example_shard_at_capacity, InnerMap_init, InnerMap_init]\<rparr>"

text \<open>
  \<open>bucket_field_ok E hm k\<close>: the node that \<open>Find\<close> returns for \<open>k\<close> carries, in its
  field \<open>bucket\<close>, the index of the bucket of \<open>k\<close>. \<open>rekey_observation\<close>: the result
  of \<open>rekey(k, newKey)\<close> with what \<open>find(newKey)\<close> and \<open>find(k)\<close> return after it.
\<close>

definition bucket_field_ok :: "'k::ord env \<Rightarrow> ('k, 'v) HashMap \<Rightarrow> 'k \<Rightarrow> bool" where
  "bucket_field_ok E hm k =
     (case Find_Lockless E k hm of
        None \<Rightarrow> False
      | Some p \<Rightarrow>
          (case mem hm p of
             None \<Rightarrow> False
           | Some n \<Rightarrow>
               bucket (data n) = GetIndex (numBuckets (shard_of E hm k)) (Hash64 E k)))"

definition rekey_observation ::
  "'k::ord env \<Rightarrow> 'k \<Rightarrow> 'k \<Rightarrow> ('k, 'v) HashMap
     \<Rightarrow> (bool \<times> 'v option option \<times> 'v option option) option" where
  "rekey_observation E k newKey hm =
     (case HashMap_rekey E k newKey hm of
        None \<Rightarrow> None
      | Some (b, hm') \<Rightarrow> Some (b, HashMap_find E newKey hm', HashMap_find E k hm'))"

section \<open>Properties\<close>

subsection \<open>The lock\<close>

lemma add_WriteIncrement_ReadMask:
  "(w + c_multiReaderWriter_WriteIncrement) AND c_multiReaderWriter_ReadMask
     = w AND c_multiReaderWriter_ReadMask"
proof -
  have "take_bit 16 (w + 2 ^ 16) = take_bit 16 w"
    by transfer (simp add: take_bit_eq_mod)
  then show ?thesis
    by (simp add: c_multiReaderWriter_WriteIncrement_def c_multiReaderWriter_ReadMask_def
        take_bit_eq_mask mask_eq_exp_minus_1)
qed

text \<open>
  C6, as stated, fails. The claim: acquire-write succeeds only when the word after the
  fetch-add is exactly 0x10000, and invoked while another writer holds the lock (word
  0x10000, no reader) it does not complete until that writer releases. Here the lock
  word is 0x10000 and the other threads do nothing (the writer keeps the lock): the
  thread returns at its first step, and the word is 0x20000.
\<close>

theorem AcquireMultiReaderWriterWriteAccess_second_writer_counterexample:
  "amw_run [id] (amw_start, 0x10000)
     = (\<lparr>pc = AMW_Returned, numRetriesLeft = 0xFFFFFFFF\<rparr>, 0x20000)"
  by (simp add: amw_start_def AcquireMultiReaderWriterWriteAccess_step_def AtomicAddU32_def
      c_multiReaderWriter_WriteIncrement_def c_multiReaderWriter_ReadMask_def)

text \<open>
  C6, amended: acquire-write performs a fetch-add of 0x10000 and succeeds when the
  reader count (the low 16 bits) of the word is zero, whatever the writer count is;
  otherwise it undoes the increment and spins until the reader count is zero before
  retrying. The three conjuncts are the fetch-add with its test, the undo, and one
  test of the spin loop, from any lock word \<open>w\<close>.
\<close>

theorem AcquireMultiReaderWriterWriteAccess_waits_for_readers_only:
  "AcquireMultiReaderWriterWriteAccess_step \<lparr>pc = AMW_FetchAdd, numRetriesLeft = r\<rparr> w
     = (if w AND 0xFFFF = 0
        then (\<lparr>pc = AMW_Returned, numRetriesLeft = r\<rparr>, w + 0x10000)
        else (\<lparr>pc = AMW_Undo, numRetriesLeft = r\<rparr>, w + 0x10000))
   \<and> AcquireMultiReaderWriterWriteAccess_step \<lparr>pc = AMW_Undo, numRetriesLeft = r\<rparr> w
     = (\<lparr>pc = AMW_Spin, numRetriesLeft = r\<rparr>, w - 0x10000)
   \<and> AcquireMultiReaderWriterWriteAccess_step \<lparr>pc = AMW_Spin, numRetriesLeft = r\<rparr> w
     = (if w AND 0xFFFF = 0
        then (\<lparr>pc = AMW_Retry, numRetriesLeft = r\<rparr>, w)
        else (\<lparr>pc = AMW_Spin, numRetriesLeft = r\<rparr>, w))"
proof -
  have low: "(w + 0x10000) AND 0xFFFF = w AND 0xFFFF"
    using add_WriteIncrement_ReadMask [of w]
    by (simp add: c_multiReaderWriter_WriteIncrement_def c_multiReaderWriter_ReadMask_def)
  show ?thesis
    by (simp add: AcquireMultiReaderWriterWriteAccess_step_def AtomicAddU32_def
        AtomicSubtractU32_def c_multiReaderWriter_WriteIncrement_def
        c_multiReaderWriter_ReadMask_def low)
qed

subsection \<open>The linked list\<close>

text \<open>
  C10: \<open>Insert\<close> and \<open>Insert_Unsafe\<close> return false and leave the list unchanged
  when the node pointer is null; for a node that is not null they return true and the
  node is the new head, in front of the former list. \<open>Insert\<close> takes the list's read
  lock first: it returns when no writer holds that lock (the writer count of the
  incremented word is zero), and the lock word is then as before the call.
\<close>

theorem Insert_null_and_head:
  "Insert_Unsafe nullptr c = (False, c)
   \<and> Insert nullptr l = Some (False, l)
   \<and> (newNode \<noteq> nullptr \<longrightarrow> Insert_Unsafe newNode c = (True, newNode # c))
   \<and> (newNode \<noteq> nullptr \<and> (lock l + 1) AND c_multiReaderWriter_WriteMask = 0 \<longrightarrow>
        Insert newNode l = Some (True, l\<lparr>pHead := newNode # pHead l\<rparr>))"
  by (simp add: Insert_Unsafe_def Insert_def AcquireReadOnlyAccess_def
      ReleaseReadOnlyAccess_def AtomicIncrementU32_def AtomicDecrementU32_def)

theorem Insert_null_and_head_witness:
  "Insert_Unsafe nullptr [7, 3] = (False, [7, 3])
   \<and> Insert nullptr \<lparr>pHead = [7, 3], lock = 0\<rparr> = Some (False, \<lparr>pHead = [7, 3], lock = 0\<rparr>)
   \<and> (5::nat) \<noteq> nullptr
   \<and> Insert_Unsafe 5 [7, 3] = (True, [5, 7, 3])
   \<and> ((0::u32) + 1) AND c_multiReaderWriter_WriteMask = 0
   \<and> Insert 5 \<lparr>pHead = [7, 3], lock = 0\<rparr> = Some (True, \<lparr>pHead = [5, 7, 3], lock = 0\<rparr>)"
  using Insert_null_and_head [of "[7, 3]" "\<lparr>pHead = [7, 3], lock = 0\<rparr>" 5]
  by (simp add: nullptr_def c_multiReaderWriter_WriteMask_def)

subsection \<open>The fixed-size pool\<close>

lemma GetIndex_slot:
  assumes "0 < sizeofNode" "i < Size_T"
  shows "FixedSizeObjectPool_GetIndex Size_T sizeofNode pool (nodes pool + i * sizeofNode) = i"
  using assms by (simp add: FixedSizeObjectPool_GetIndex_def c_maxNumNodes_def Let_def)

lemma GetIndex_valid:
  assumes "FixedSizeObjectPool_GetIndex Size_T sizeofNode pool pData < c_maxNumNodes Size_T"
  shows "\<exists>i<Size_T. pData = nodes pool + i * sizeofNode"
proof -
  from assms have le: "nodes pool \<le> pData"
    and lt: "(pData - nodes pool) div sizeofNode < Size_T"
    and r: "(pData - nodes pool) mod sizeofNode = 0"
    by (auto simp: FixedSizeObjectPool_GetIndex_def c_maxNumNodes_def c_InvalidIndex_def Let_def
        split: if_splits)
  from r have "pData - nodes pool = ((pData - nodes pool) div sizeofNode) * sizeofNode"
    using div_mult_mod_eq [of "pData - nodes pool" sizeofNode] by simp
  with le have "pData = nodes pool + ((pData - nodes pool) div sizeofNode) * sizeofNode"
    by linarith
  with lt show ?thesis by blast
qed

text \<open>
  C9: \<open>Release\<close> with a pointer that is not the address of one of the pool's
  \<open>Size_T\<close> slots (outside the array, or inside it but not at a slot boundary), or
  with the address of a slot whose allocation bit is clear, returns false, and the
  pool (bitmap, \<open>numAllocated\<close>) and the memory (no object destroyed) are as before.
\<close>

theorem FixedSizeObjectPool_Release_rejects:
  assumes sz: "0 < sizeofNode"
    and bad: "(\<forall>i<Size_T. pData \<noteq> nodes pool + i * sizeofNode)
       \<or> (\<exists>i<Size_T. pData = nodes pool + i * sizeofNode \<and> \<not> bAllocatedBits pool ! i)"
  shows "FixedSizeObjectPool_Release Size_T sizeofNode (pool, h) pData = (False, pool, h)"
proof (cases "FixedSizeObjectPool_GetIndex Size_T sizeofNode pool pData < c_maxNumNodes Size_T")
  case False
  then show ?thesis by (simp add: FixedSizeObjectPool_Release_def Let_def)
next
  case True
  then obtain j where j: "j < Size_T" "pData = nodes pool + j * sizeofNode"
    using GetIndex_valid by blast
  with bad obtain i where i: "i < Size_T" "pData = nodes pool + i * sizeofNode"
    "\<not> bAllocatedBits pool ! i" by blast
  have idx: "FixedSizeObjectPool_GetIndex Size_T sizeofNode pool pData = i"
    using GetIndex_slot [OF sz i(1)] i(2) by simp
  show ?thesis
    using i(1) i(3) by (simp add: FixedSizeObjectPool_Release_def idx IsAllocated_def Let_def
        c_maxNumNodes_def c_InvalidIndex_def)
qed

text \<open>
  A pool of four slots of 48 bytes at address 4096 with slot 0 allocated: address 4100
  is inside slot 0, address 4144 is slot 1, whose bit is clear.
\<close>

theorem FixedSizeObjectPool_Release_rejects_witness:
  "FixedSizeObjectPool_Release 4 48
       (\<lparr>nodes = 4096, numAllocated = 1, bAllocatedBits = [True, False, False, False],
         cachedIteratorIndex = 1\<rparr>, Map.empty(4096 \<mapsto> (7::nat))) 4100
     = (False, \<lparr>nodes = 4096, numAllocated = 1, bAllocatedBits = [True, False, False, False],
         cachedIteratorIndex = 1\<rparr>, Map.empty(4096 \<mapsto> 7))
   \<and> FixedSizeObjectPool_Release 4 48
       (\<lparr>nodes = 4096, numAllocated = 1, bAllocatedBits = [True, False, False, False],
         cachedIteratorIndex = 1\<rparr>, Map.empty(4096 \<mapsto> (7::nat))) 4144
     = (False, \<lparr>nodes = 4096, numAllocated = 1, bAllocatedBits = [True, False, False, False],
         cachedIteratorIndex = 1\<rparr>, Map.empty(4096 \<mapsto> 7))"
proof -
  have outside: "\<forall>i<(4::nat). (4100::nat) \<noteq> 4096 + i * 48"
    by presburger
  have clear: "\<exists>i<(4::nat). (4144::nat) = 4096 + i * 48 \<and> \<not> [True, False, False, False] ! i"
    by (rule exI [of _ 1]) simp
  show ?thesis
    using outside clear
      FixedSizeObjectPool_Release_rejects [of 48 4 4100
        "\<lparr>nodes = 4096, numAllocated = 1, bAllocatedBits = [True, False, False, False],
          cachedIteratorIndex = 1\<rparr>" "Map.empty(4096 \<mapsto> (7::nat))"]
      FixedSizeObjectPool_Release_rejects [of 48 4 4144
        "\<lparr>nodes = 4096, numAllocated = 1, bAllocatedBits = [True, False, False, False],
          cachedIteratorIndex = 1\<rparr>" "Map.empty(4096 \<mapsto> (7::nat))"]
    by simp
qed

subsection \<open>Counts\<close>

text \<open>
  C2 on the code: after \<open>insert(1, 10)\<close> and \<open>insert(1, 20)\<close> on the empty map
  (the second returns false, key 1 being present) the shard of key 1 has
  \<open>count = 2\<close> and one node reachable from its bucket array.
  \<open>Insert_Lockless\<close> increments \<open>count\<close> before it looks for the key and takes the
  increment back only on the path where the list insertion fails.
\<close>

theorem insert_present_key_increments_count:
  "map_option count_and_nodes
     (run_operations example_env [Op_insert 1 10, Op_insert 1 20] example_empty)
   = Some [(0, 0), (2, 1), (0, 0), (0, 0)]"
  by code_simp

text \<open>
  C4 on the code: keys 1 and 2 belong to different shards. After \<open>insert(1, 10)\<close>,
  \<open>rekey(1, 2)\<close> (which returns false and leaves the node marked REASSIGNING) and
  \<open>erase(1)\<close> (which returns true and, for the mark, does not release the node), the
  map has size 0 and the pool counts one live object.
\<close>

theorem rekey_then_erase_leaks_node:
  "map_option size_and_pool_count
     (run_operations example_env [Op_insert 1 10, Op_rekey 1 2, Op_erase 1] example_empty)
   = Some (0, 1)"
  by code_simp

subsection \<open>The free-page list\<close>

lemma m28: "(0x0FFFFFFF :: u64) = mask 28" by (simp add: mask_eq_exp_minus_1)

lemma lt28_bit: "(p :: u32) < 2 ^ 28 \<Longrightarrow> bit p k \<Longrightarrow> k < 28"
  by (metis bit_take_bit_iff less_mask_eq take_bit_eq_mask)

lemma headPageIndex_packHead:
  assumes "p < 2 ^ 28" "n < 2 ^ 28"
  shows "headPageIndex (packHead c n p) = p"
  unfolding headPageIndex_def packHead_def c_headPageIndexMask_def c_bitIndexHeadPageIndex_def
    c_bitIndexHeadNextIndex_def c_bitIndexHeadCounter_def m28
  apply (rule bit_word_eqI)
  using lt28_bit[OF assms(1)] lt28_bit[OF assms(2)]
  apply (auto simp: bit_simps)
  done

lemma headNextIndex_packHead:
  assumes "p < 2 ^ 28" "n < 2 ^ 28"
  shows "headNextIndex (packHead c n p) = n"
  unfolding headNextIndex_def packHead_def c_headNextIndexMask_def c_bitIndexHeadPageIndex_def
    c_bitIndexHeadNextIndex_def c_bitIndexHeadCounter_def m28
  apply (rule bit_word_eqI)
  using lt28_bit[OF assms(1)] lt28_bit[OF assms(2)]
  apply (auto simp: bit_simps)
  done

lemma MaxPages_val: "unat c_MaxPages = 268435453"
  by (simp add: c_MaxPages_def c_TailPageIndex_def)

lemma pos_word:
  assumes "n < unat c_MaxPages"
  shows "unat (of_nat n :: u32) = n" "(of_nat n :: u32) < 2 ^ 28"
    "(of_nat n :: u32) \<noteq> c_TailPageIndex" "(of_nat n :: u32) \<noteq> c_InvalidPageIndex"
    "(of_nat n :: u32) \<noteq> c_SwappingPageIndex"
proof -
  from assms have n: "n < 268435453" by (simp add: MaxPages_val)
  then show u: "unat (of_nat n :: u32) = n"
    by (simp add: unat_of_nat)
  from n u show "(of_nat n :: u32) < 2 ^ 28"
    by (simp add: word_less_nat_alt)
  from n u show "(of_nat n :: u32) \<noteq> c_TailPageIndex"
    by (auto simp: c_TailPageIndex_def dest!: arg_cong[where f=unat])
  from n u show "(of_nat n :: u32) \<noteq> c_InvalidPageIndex"
    by (auto simp: c_InvalidPageIndex_def dest!: arg_cong[where f=unat])
  from n u show "(of_nat n :: u32) \<noteq> c_SwappingPageIndex"
    by (auto simp: c_SwappingPageIndex_def dest!: arg_cong[where f=unat])
qed

lemma unat_len:
  assumes "n \<le> unat c_MaxPages"
  shows "unat (of_nat n :: u32) = n"
  using assms by (simp add: unat_of_nat MaxPages_val)

lemma pos_less_numPages:
  assumes "length (pPageList pool) \<le> unat c_MaxPages"
  shows "(of_nat i :: u32) < numPages pool \<longleftrightarrow> i mod 2 ^ 32 < length (pPageList pool)"
  using assms by (simp add: numPages_def word_less_nat_alt unat_of_nat MaxPages_val)

lemma Tail_not_less_numPages:
  assumes "length (pPageList pool) \<le> unat c_MaxPages"
  shows "\<not> c_TailPageIndex < numPages pool"
  using assms by (simp add: numPages_def word_less_nat_alt unat_len MaxPages_val c_TailPageIndex_def)


lemma is_free_chain_cong:
  assumes "is_free_chain pages i xs" "length pages' = length pages"
    "\<forall>x \<in> set xs. nextFreeIndex (pages' ! x) = nextFreeIndex (pages ! x)"
  shows "is_free_chain pages' i xs"
  using assms by (induction xs arbitrary: i) auto

lemma is_free_chain_bound:
  assumes "is_free_chain pages i xs"
  shows "\<forall>x \<in> set xs. x < length pages"
  using assms by (induction xs arbitrary: i) auto

lemma Push_abort:
  assumes "i < length (pPageList pool)"
    and "nextFreeIndex (pPageList pool ! i) \<noteq> c_InvalidPageIndex"
  shows "PushPageToFreeList (Some i) pool = Some pool"
  using assms by (simp add: PushPageToFreeList_def page_at_def)

lemma head_of_chain:
  assumes "is_free_chain pages i xs" "length pages \<le> unat c_MaxPages"
  shows "i = c_TailPageIndex \<or> (i < 2 ^ 28 \<and> unat i < length pages)"
proof (cases xs)
  case Nil
  with assms show ?thesis by simp
next
  case (Cons a list)
  with assms have "a < unat c_MaxPages" "i = of_nat a" "a < length pages" by auto
  then show ?thesis using pos_word [of a] by simp
qed

lemma chain_head_ok:
  assumes "is_free_chain pages i xs" "length pages \<le> unat c_MaxPages"
  shows "i < 2 ^ 28" "i \<noteq> c_InvalidPageIndex" "i \<noteq> c_SwappingPageIndex"
proof -
  have "i < 2 ^ 28 \<and> i \<noteq> c_InvalidPageIndex \<and> i \<noteq> c_SwappingPageIndex"
  proof (cases xs)
    case Nil
    with assms show ?thesis
      by (simp add: c_TailPageIndex_def c_InvalidPageIndex_def c_SwappingPageIndex_def)
  next
    case (Cons a list)
    with assms have "a < unat c_MaxPages" "i = of_nat a" by auto
    then show ?thesis using pos_word [of a] by simp
  qed
  then show "i < 2 ^ 28" "i \<noteq> c_InvalidPageIndex" "i \<noteq> c_SwappingPageIndex"
    by simp_all
qed

lemma Push_inv:
  assumes inv: "free_list_inv pool xs"
    and i: "i < length (pPageList pool)"
    and free: "nextFreeIndex (pPageList pool ! i) = c_InvalidPageIndex"
  shows "\<exists>pool'. PushPageToFreeList (Some i) pool = Some pool'
           \<and> free_list_inv pool' (i # xs)
           \<and> length (pPageList pool') = length (pPageList pool)
           \<and> (\<forall>j < length (pPageList pool). Page_data (pPageList pool' ! j) = Page_data (pPageList pool ! j))
           \<and> pageCapacity pool' = pageCapacity pool \<and> Pool_count pool' = Pool_count pool"
proof -
  let ?pages = "pPageList pool"
  let ?h = "headPageIndex (freeListHeadIndex pool)"
  from inv have len: "length ?pages \<le> unat c_MaxPages"
    and idx: "\<forall>i < length ?pages. Page_pageIndex (?pages ! i) = of_nat i"
    and ch: "is_free_chain ?pages ?h xs"
    and dist: "distinct xs"
    and I6: "\<forall>i < length ?pages. nextFreeIndex (?pages ! i) = c_InvalidPageIndex \<longleftrightarrow> i \<notin> set xs"
    by (simp_all add: free_list_inv_def)
  from I6 i free have notin: "i \<notin> set xs" by simp
  from i len have ile: "i < unat c_MaxPages" by simp
  have pi: "Page_pageIndex (?pages ! i) = of_nat i" using idx i by simp
  have lt: "(of_nat i :: u32) < numPages pool"
    using pos_less_numPages [OF len, of i] i ile by (simp add: MaxPages_val)
  have hd: "?h = c_TailPageIndex \<or> (?h < 2 ^ 28 \<and> unat ?h < length ?pages)"
    using head_of_chain [OF ch len] .
  then have hd_ok: "?h < numPages pool \<or> ?h = c_TailPageIndex"
    using len by (auto simp: numPages_def word_less_nat_alt unat_of_nat MaxPages_val)
  have h28: "?h < 2 ^ 28" and hinv: "?h \<noteq> c_InvalidPageIndex"
    using chain_head_ok [OF ch len] by simp_all
  define pages' where "pages' = ?pages[i := (?pages ! i)\<lparr>nextFreeIndex := ?h\<rparr>]"
  define pool' where "pool' = pool\<lparr>pPageList := pages',
      freeListHeadIndex := packHead (headCounter (freeListHeadIndex pool) + 1) ?h (of_nat i)\<rparr>"
  have push: "PushPageToFreeList (Some i) pool = Some pool'"
    using i free lt hd_ok
    by (simp add: PushPageToFreeList_def page_at_def Let_def pi pool'_def pages'_def)
  have same: "\<forall>x \<in> set xs. nextFreeIndex (pages' ! x) = nextFreeIndex (?pages ! x)"
  proof
    fix x assume "x \<in> set xs"
    with notin have "i \<noteq> x" by auto
    then show "nextFreeIndex (pages' ! x) = nextFreeIndex (?pages ! x)"
      by (simp add: pages'_def)
  qed
  have ch': "is_free_chain pages' ?h xs"
    by (rule is_free_chain_cong [OF ch _ same]) (simp add: pages'_def)
  have inv': "free_list_inv pool' (i # xs)"
    unfolding free_list_inv_def
    using len idx ch' dist notin i I6 h28 pos_word(2) [OF ile] hinv
    by (auto simp: pool'_def pages'_def headPageIndex_packHead headNextIndex_packHead
        nth_list_update)
  show ?thesis
    using push inv' i by (auto simp: pool'_def pages'_def nth_list_update)
qed


lemma less_numPages_iff:
  assumes "length (pPageList pool) \<le> unat c_MaxPages"
  shows "w < numPages pool \<longleftrightarrow> unat w < length (pPageList pool)"
  using assms by (simp add: numPages_def word_less_nat_alt unat_len)

lemma Pop_empty:
  assumes inv: "free_list_inv pool []"
  shows "PopPageFromFreeList pool = Some (None, pool)"
proof -
  from inv have len: "length (pPageList pool) \<le> unat c_MaxPages"
    and hd: "headPageIndex (freeListHeadIndex pool) = c_TailPageIndex"
    by (simp_all add: free_list_inv_def)
  show ?thesis
    using Tail_not_less_numPages [OF len]
    by (simp add: PopPageFromFreeList_def PopPageFromFreeList_loop_def Let_def hd)
qed

lemma Pop_inv:
  assumes inv: "free_list_inv pool (x # xs)"
  shows "\<exists>pool'. PopPageFromFreeList pool = Some (Some x, pool')
           \<and> free_list_inv pool' xs
           \<and> nextFreeIndex (pPageList pool' ! x) = c_InvalidPageIndex
           \<and> length (pPageList pool') = length (pPageList pool)
           \<and> (\<forall>j < length (pPageList pool). Page_data (pPageList pool' ! j) = Page_data (pPageList pool ! j))
           \<and> pageCapacity pool' = pageCapacity pool \<and> Pool_count pool' = Pool_count pool"
proof -
  let ?pages = "pPageList pool"
  let ?w = "freeListHeadIndex pool"
  from inv have len: "length ?pages \<le> unat c_MaxPages"
    and idx: "\<forall>i < length ?pages. Page_pageIndex (?pages ! i) = of_nat i"
    and hd: "headPageIndex ?w = of_nat x" and x: "x < length ?pages"
    and ch: "is_free_chain ?pages (nextFreeIndex (?pages ! x)) xs"
    and dist: "distinct xs" and notin: "x \<notin> set xs"
    and nx: "headNextIndex ?w = nextFreeIndex (?pages ! x)"
    and I6: "\<forall>i < length ?pages. nextFreeIndex (?pages ! i) = c_InvalidPageIndex \<longleftrightarrow> i \<notin> set (x # xs)"
    by (simp_all add: free_list_inv_def)
  let ?n = "nextFreeIndex (?pages ! x)"
  from x len have xm: "x < unat c_MaxPages" by simp
  have ux: "unat (of_nat x :: u32) = x" using pos_word(1) [OF xm] .
  have lt: "headPageIndex ?w < numPages pool"
    using less_numPages_iff [OF len] x ux hd by simp
  have nh: "?n = c_TailPageIndex \<or> (?n < 2 ^ 28 \<and> unat ?n < length ?pages)"
    using head_of_chain [OF ch len] .
  have n28: "?n < 2 ^ 28" using chain_head_ok [OF ch len] by simp
  define nn where "nn = (if ?n < numPages pool then nextFreeIndex (?pages ! unat ?n) else c_TailPageIndex)"
  have nn_chain: "nn = (case xs of [] \<Rightarrow> c_TailPageIndex | y # rest \<Rightarrow> nextFreeIndex (?pages ! y))"
  proof (cases xs)
    case Nil
    with ch have "?n = c_TailPageIndex" by simp
    then show ?thesis using Nil Tail_not_less_numPages [OF len] by (simp add: nn_def)
  next
    case (Cons y rest)
    with ch have y: "?n = of_nat y" "y < length ?pages" by auto
    with len have "y < unat c_MaxPages" by simp
    then have "unat (of_nat y :: u32) = y" using pos_word(1) by blast
    then show ?thesis using Cons y less_numPages_iff [OF len, of "of_nat y"] by (simp add: nn_def)
  qed
  have nn_ok: "nn \<noteq> c_InvalidPageIndex \<and> nn \<noteq> c_SwappingPageIndex \<and> nn < 2 ^ 28"
  proof (cases xs)
    case Nil
    then show ?thesis using nn_chain
      by (simp add: c_TailPageIndex_def c_InvalidPageIndex_def c_SwappingPageIndex_def)
  next
    case (Cons y rest)
    with ch have y: "y < length ?pages"
      and ch2: "is_free_chain ?pages (nextFreeIndex (?pages ! y)) rest" by auto
    have "nn = nextFreeIndex (?pages ! y)" using nn_chain Cons by simp
    then show ?thesis
      using chain_head_ok [OF ch2 len] by simp
  qed
  define pool1 where "pool1 = pool\<lparr>freeListHeadIndex := packHead (headCounter ?w + 1) nn ?n\<rparr>"
  have loop: "PopPageFromFreeList_loop pool = Some (of_nat x, pool1)"
    using lt nn_ok
    by (auto simp: PopPageFromFreeList_loop_def Let_def nx hd pool1_def nn_def page_at_def
        less_numPages_iff [OF len] split: option.splits if_splits)
  define pages' where "pages' = ?pages[x := (?pages ! x)\<lparr>nextFreeIndex := c_InvalidPageIndex\<rparr>]"
  define pool' where "pool' = pool1\<lparr>pPageList := pages'\<rparr>"
  have pop: "PopPageFromFreeList pool = Some (Some x, pool')"
    using lt x ux hd
    by (simp add: PopPageFromFreeList_def loop numPages_def pool1_def page_at_def pool'_def pages'_def)
  have same: "\<forall>y \<in> set xs. nextFreeIndex (pages' ! y) = nextFreeIndex (?pages ! y)"
  proof
    fix y assume "y \<in> set xs"
    with notin have "x \<noteq> y" by auto
    then show "nextFreeIndex (pages' ! y) = nextFreeIndex (?pages ! y)"
      by (simp add: pages'_def)
  qed
  have ch': "is_free_chain pages' ?n xs"
    by (rule is_free_chain_cong [OF ch _ same]) (simp add: pages'_def)
  have nn': "nn = (case xs of [] \<Rightarrow> c_TailPageIndex | y # rest \<Rightarrow> nextFreeIndex (pages' ! y))"
    using nn_chain same by (cases xs) auto
  have pl: "pPageList pool' = pages'"
    and fl: "freeListHeadIndex pool' = packHead (headCounter ?w + 1) nn ?n"
    by (simp_all add: pool'_def pool1_def)
  have lp: "length pages' = length ?pages" by (simp add: pages'_def)
  have I6': "\<forall>i < length pages'. nextFreeIndex (pages' ! i) = c_InvalidPageIndex \<longleftrightarrow> i \<notin> set xs"
    using I6 x notin by (auto simp: pages'_def nth_list_update)
  have idx': "\<forall>i < length pages'. Page_pageIndex (pages' ! i) = of_nat i"
    using idx x by (auto simp: pages'_def nth_list_update)
  have inv': "free_list_inv pool' xs"
    unfolding free_list_inv_def pl fl
    using len lp idx' ch' dist I6' n28 nn_ok nn'
    by (simp add: headPageIndex_packHead headNextIndex_packHead)
  show ?thesis
    using pop inv' x by (auto simp: pool'_def pool1_def pages'_def nth_list_update)
qed


lemma Reserve_loop_result:
  assumes "FixedSizeObjectPool_Reserve_loop N sz obj i cur (pool, h) = (p, pool', h')"
  shows "nodes pool' = nodes pool
     \<and> ((p = nullptr \<and> pool' = pool \<and> h' = h)
        \<or> (\<exists>c < N. p = nodes pool + c * sz \<and> h' = h(p \<mapsto> obj)
              \<and> \<not> bAllocatedBits pool ! c))"
  using assms
proof (induction N sz obj i cur "(pool, h)" arbitrary: rule: FixedSizeObjectPool_Reserve_loop.induct)
  case (1 Size_T sizeofNode obj i currentIndex)
  let ?cur = "if c_maxNumNodes Size_T \<le> currentIndex then 0 else currentIndex"
  show ?case
  proof (cases "i < c_maxNumNodes Size_T")
    case False
    with "1.prems" show ?thesis
      by (simp add: FixedSizeObjectPool_Reserve_loop.simps)
  next
    case lt: True
    then have curlt: "?cur < Size_T" by (auto simp: c_maxNumNodes_def)
    show ?thesis
    proof (cases "c_maxNumNodes Size_T \<le> numAllocated pool")
      case True
      with lt "1.prems" show ?thesis
        by (simp add: FixedSizeObjectPool_Reserve_loop.simps Let_def)
    next
      case nf: False
      show ?thesis
      proof (cases "IsAllocated Size_T pool ?cur")
        case True
        with lt nf "1.prems"
        have "FixedSizeObjectPool_Reserve_loop Size_T sizeofNode obj (i + 1) (?cur + 1) (pool, h)
              = (p, pool', h')"
          by (simp add: FixedSizeObjectPool_Reserve_loop.simps [of _ _ _ i] Let_def)
        with "1.hyps"(2) [OF lt refl _ _ ] nf True show ?thesis by simp
      next
        case False
        with curlt have clear: "\<not> bAllocatedBits pool ! ?cur"
          by (auto simp: IsAllocated_def c_InvalidIndex_def split: if_splits)
        with curlt have sa: "SetAllocated Size_T pool ?cur
            = (True, pool\<lparr>bAllocatedBits := (bAllocatedBits pool)[?cur := True]\<rparr>)"
          by (simp add: SetAllocated_def c_maxNumNodes_def)
        from lt nf False sa "1.prems"
        have "p = nodes pool + ?cur * sizeofNode" "h' = Construct p obj h"
          "nodes pool' = nodes pool"
          by (auto simp: FixedSizeObjectPool_Reserve_loop.simps [of _ _ _ i] Let_def)
        with curlt clear show ?thesis
          by (auto simp: Construct_def)
      qed
    qed
  qed
qed

lemma Reserve_fresh:
  assumes "0 < N"
  shows "\<exists>fsp. FixedSizeObjectPool_Reserve N sz obj (FixedSizeObjectPool_init N a, h)
           = (a, fsp, h(a \<mapsto> obj))"
  using assms
  by (simp add: FixedSizeObjectPool_Reserve_def FixedSizeObjectPool_init_def
      FixedSizeObjectPool_Reserve_loop.simps [of _ _ _ 0] Let_def c_maxNumNodes_def
      IsAllocated_def c_InvalidIndex_def SetAllocated_def Construct_def)

lemma free_list_inv_Page_data:
  assumes "free_list_inv pool xs"
    and "length pages' = length (pPageList pool)"
    and "\<forall>j < length (pPageList pool). nextFreeIndex (pages' ! j) = nextFreeIndex (pPageList pool ! j)
          \<and> Page_pageIndex (pages' ! j) = Page_pageIndex (pPageList pool ! j)"
    and "freeListHeadIndex pool' = freeListHeadIndex pool" "pPageList pool' = pages'"
  shows "free_list_inv pool' xs"
proof -
  from assms(1) have ch: "is_free_chain (pPageList pool) (headPageIndex (freeListHeadIndex pool)) xs"
    by (simp add: free_list_inv_def)
  have b: "\<forall>x \<in> set xs. x < length (pPageList pool)"
    using is_free_chain_bound [OF ch] .
  have ch': "is_free_chain pages' (headPageIndex (freeListHeadIndex pool)) xs"
    by (rule is_free_chain_cong [OF ch assms(2)]) (use b assms(3) in auto)
  show ?thesis
    using assms ch' b unfolding free_list_inv_def
    by (cases xs) auto
qed

lemma AllocateNewPage_inv:
  assumes inv: "free_list_inv pool xs"
    and alloc: "NewAligned E (length (pPageList pool)) \<noteq> nullptr"
    and room: "length (pPageList pool) < unat c_MaxPages"
  shows "\<exists>pool' nfi. AllocateNewPage E pool = Some pool'
          \<and> free_list_inv pool' (length (pPageList pool) # xs)
          \<and> pPageList pool' = pPageList pool @
               [\<lparr>Page_data = FixedSizeObjectPool_init (PageSize_T E)
                              (NewAligned E (length (pPageList pool))),
                 Page_pageIndex = of_nat (length (pPageList pool)),
                 nextFreeIndex = nfi\<rparr>]
          \<and> Pool_count pool' = Pool_count pool"
proof -
  let ?pages = "pPageList pool"
  let ?n = "length ?pages"
  let ?a = "NewAligned E ?n"
  define pg where "pg = \<lparr>Page_data = FixedSizeObjectPool_init (PageSize_T E) ?a,
                 Page_pageIndex = numPages pool + 1 - 1,
                 nextFreeIndex = c_InvalidPageIndex\<rparr>"
  define cap where "cap = (if pageCapacity pool < numPages pool + 1 then
               (let newPageCapacity =
                      (if pageCapacity pool = 0 then c_initialPageCapacity
                       else pageCapacity pool * 2)
                in if newPageCapacity < numPages pool + 1 then (numPages pool + 1) * 2 else newPageCapacity)
             else pageCapacity pool)"
  define ext where "ext = pool\<lparr>pPageList := ?pages @ [pg], pageCapacity := cap\<rparr>"
  have alloc_eq: "AllocateNewPage E pool = PushPageToFreeList (Some ?n) ext"
    using alloc by (simp add: AllocateNewPage_def Let_def ext_def pg_def cap_def)
  from inv have len: "?n \<le> unat c_MaxPages"
    and idx: "\<forall>i < ?n. Page_pageIndex (?pages ! i) = of_nat i"
    and ch: "is_free_chain ?pages (headPageIndex (freeListHeadIndex pool)) xs"
    and dist: "distinct xs"
    and nx: "headNextIndex (freeListHeadIndex pool)
       = (case xs of [] \<Rightarrow> c_TailPageIndex | x # rest \<Rightarrow> nextFreeIndex (?pages ! x))"
    and I6: "\<forall>i < ?n. nextFreeIndex (?pages ! i) = c_InvalidPageIndex \<longleftrightarrow> i \<notin> set xs"
    by (simp_all add: free_list_inv_def)
  have b: "\<forall>x \<in> set xs. x < ?n" using is_free_chain_bound [OF ch] .
  have pgi: "Page_pageIndex pg = of_nat ?n" by (simp add: pg_def numPages_def)
  have same: "\<forall>x \<in> set xs. nextFreeIndex ((?pages @ [pg]) ! x) = nextFreeIndex (?pages ! x)"
    using b by (auto simp: nth_append)
  have ch': "is_free_chain (?pages @ [pg]) (headPageIndex (freeListHeadIndex pool)) xs"
  proof -
    have "\<And>i. is_free_chain ?pages i xs \<Longrightarrow> is_free_chain (?pages @ [pg]) i xs"
    proof (induction xs)
      case Nil
      then show ?case by simp
    next
      case (Cons a xs)
      then show ?case by (auto simp: nth_append)
    qed
    then show ?thesis using ch by blast
  qed
  have nx': "headNextIndex (freeListHeadIndex pool)
       = (case xs of [] \<Rightarrow> c_TailPageIndex | x # rest \<Rightarrow> nextFreeIndex ((?pages @ [pg]) ! x))"
    using nx b by (cases xs) (auto simp: nth_append)
  have notin: "?n \<notin> set xs" using b by auto
  have pl: "pPageList ext = ?pages @ [pg]"
    and fl: "freeListHeadIndex ext = freeListHeadIndex pool"
    by (simp_all add: ext_def)
  have idx2: "\<forall>i < length (?pages @ [pg]). Page_pageIndex ((?pages @ [pg]) ! i) = of_nat i"
    using idx pgi by (auto simp: nth_append less_Suc_eq)
  have I62: "\<forall>i < length (?pages @ [pg]).
         nextFreeIndex ((?pages @ [pg]) ! i) = c_InvalidPageIndex \<longleftrightarrow> i \<notin> set xs"
    using I6 notin by (auto simp: nth_append less_Suc_eq pg_def)
  have inv_ext: "free_list_inv ext xs"
    unfolding free_list_inv_def pl fl
    using room idx2 ch' dist nx' I62
    by simp
  have "?n < length (pPageList ext)" by (simp add: ext_def)
  moreover have "nextFreeIndex (pPageList ext ! ?n) = c_InvalidPageIndex"
    by (simp add: ext_def pg_def)
  ultimately obtain pool' where p: "PushPageToFreeList (Some ?n) ext = Some pool'"
    "free_list_inv pool' (?n # xs)" "length (pPageList pool') = length (pPageList ext)"
    "\<forall>j < length (pPageList ext). Page_data (pPageList pool' ! j) = Page_data (pPageList ext ! j)"
    "Pool_count pool' = Pool_count ext"
    using Push_inv [OF inv_ext] by blast
  have idx': "\<forall>i < length (pPageList pool'). Page_pageIndex (pPageList pool' ! i) = of_nat i"
    using p(2) by (simp add: free_list_inv_def)
  have pre: "\<forall>j < ?n. pPageList pool' ! j = ?pages ! j"
    using p(1) by (auto simp: PushPageToFreeList_def page_at_def ext_def Let_def nth_append
        split: if_splits)
  have lp: "length (pPageList pool') = Suc ?n" using p(3) by (simp add: ext_def)
  have last: "pPageList pool' ! ?n = \<lparr>Page_data = FixedSizeObjectPool_init (PageSize_T E) ?a,
                 Page_pageIndex = of_nat ?n,
                 nextFreeIndex = nextFreeIndex (pPageList pool' ! ?n)\<rparr>"
    using p(4) idx' lp by (simp add: ext_def pg_def)
  have "pPageList pool' = ?pages @ [pPageList pool' ! ?n]"
    using pre lp by (auto intro!: nth_equalityI simp: nth_append less_Suc_eq)
  with last have "pPageList pool' = ?pages @
               [\<lparr>Page_data = FixedSizeObjectPool_init (PageSize_T E) ?a,
                 Page_pageIndex = of_nat ?n,
                 nextFreeIndex = nextFreeIndex (pPageList pool' ! ?n)\<rparr>]" by simp
  with p show ?thesis
    using alloc_eq by (auto simp: ext_def)
qed

lemma FSP_Reserve_result:
  assumes "FixedSizeObjectPool_Reserve N sz obj (fsp, h) = (p, fsp', h')"
  shows "nodes fsp' = nodes fsp" "nodes fsp \<noteq> nullptr \<Longrightarrow> p = nullptr \<Longrightarrow> h' = h"
    "nodes fsp \<noteq> nullptr \<Longrightarrow> p \<noteq> nullptr \<Longrightarrow> h' = h(p \<mapsto> obj)"
    "nodes fsp \<noteq> nullptr \<Longrightarrow> p = nullptr \<Longrightarrow> fsp' = fsp"
  using Reserve_loop_result [of N sz obj 0 "cachedIteratorIndex fsp" fsp h p fsp' h'] assms
  by (auto simp: FixedSizeObjectPool_Reserve_def nullptr_def)

lemma Reserve_success_branch:
  assumes inv: "free_list_inv pool1 xs" and ok: "pages_ok pool1"
    and x: "x < length (pPageList pool1)"
    and free: "nextFreeIndex (pPageList pool1 ! x) = c_InvalidPageIndex"
    and r: "FixedSizeObjectPool_Reserve N sz node (Page_data (pPageList pool1 ! x), h) = (p, fsp, h1)"
    and p: "p \<noteq> nullptr"
  shows "\<exists>pool' xs'.
      (let h2 = h1(p \<mapsto> node');
           pool2 = pool1\<lparr>pPageList := (pPageList pool1)[x := (pPageList pool1 ! x)\<lparr>Page_data := fsp\<rparr>],
                         Pool_count := Pool_count pool1 + 1\<rparr>
       in if \<not> IsFull N fsp then
            (case PushPageToFreeList (Some x) pool2 of
               None \<Rightarrow> None
             | Some pool3 \<Rightarrow> Some (p, pool3, h2))
          else Some (p, pool2, h2)) = Some (p, pool', h(p \<mapsto> node'))
      \<and> free_list_inv pool' xs' \<and> pages_ok pool'
      \<and> length (pPageList pool') = length (pPageList pool1)
      \<and> Pool_count pool' = Pool_count pool1 + 1"
proof -
  let ?pages = "pPageList pool1"
  let ?page = "?pages ! x"
  define pages2 where "pages2 = ?pages[x := ?page\<lparr>Page_data := fsp\<rparr>]"
  define pool2 where "pool2 = pool1\<lparr>pPageList := pages2, Pool_count := Pool_count pool1 + 1\<rparr>"
  have nn: "nodes (Page_data ?page) \<noteq> nullptr" using ok x by (simp add: pages_ok_def)
  have h1: "h1 = h(p \<mapsto> node)" and nf: "nodes fsp = nodes (Page_data ?page)"
    using FSP_Reserve_result [OF r] nn p by simp_all
  have h2: "h1(p \<mapsto> node') = h(p \<mapsto> node')" by (simp add: h1)
  have inv2: "free_list_inv pool2 xs"
    by (rule free_list_inv_Page_data [OF inv, of pages2])
      (use x in \<open>auto simp: pages2_def pool2_def nth_list_update\<close>)
  have ok2: "pages_ok pool2"
    using ok nf x by (auto simp: pages_ok_def pool2_def pages2_def nth_list_update)
  have l2: "length (pPageList pool2) = length ?pages" by (simp add: pool2_def pages2_def)
  have c2: "Pool_count pool2 = Pool_count pool1 + 1" by (simp add: pool2_def)
  show ?thesis
  proof (cases "IsFull N fsp")
    case True
    then show ?thesis
      using inv2 ok2 l2 c2 h2 unfolding Let_def pool2_def pages2_def by auto
  next
    case False
    have x2: "x < length (pPageList pool2)" using x l2 by simp
    have f2: "nextFreeIndex (pPageList pool2 ! x) = c_InvalidPageIndex"
      using free x by (simp add: pool2_def pages2_def)
    obtain pool3 where p3: "PushPageToFreeList (Some x) pool2 = Some pool3"
      "free_list_inv pool3 (x # xs)" "length (pPageList pool3) = length (pPageList pool2)"
      "\<forall>j < length (pPageList pool2). Page_data (pPageList pool3 ! j) = Page_data (pPageList pool2 ! j)"
      "Pool_count pool3 = Pool_count pool2"
      using Push_inv [OF inv2 x2 f2] by blast
    have ok3: "pages_ok pool3"
      using ok2 p3(3,4) by (simp add: pages_ok_def)
    show ?thesis
      using False p3 ok3 l2 c2 h2 unfolding Let_def pool2_def [symmetric] pages2_def [symmetric]
      by auto
  qed
qed

lemma PagingObjectPool_Reserve_returns:
  assumes inv: "free_list_inv pool xs" and ok: "pages_ok pool"
    and alloc: "\<forall>n. NewAligned E n \<noteq> nullptr"
    and ps: "0 < PageSize_T E"
    and room: "length (pPageList pool) < unat c_MaxPages"
  shows "\<exists>p pool' xs' pi.
      PagingObjectPool_Reserve E obj (pool, h) = Some (p, pool', h(p \<mapsto> \<lparr>data = obj, pageIndex = pi\<rparr>))
      \<and> p \<noteq> nullptr \<and> free_list_inv pool' xs' \<and> pages_ok pool'
      \<and> Pool_count pool' = Pool_count pool + 1"
  using inv ok room
proof (induction xs arbitrary: pool)
  case Nil
  note inv = Nil.prems(1) and ok = Nil.prems(2) and room = Nil.prems(3)
  let ?n = "length (pPageList pool)"
  have pop: "PopPageFromFreeList pool = Some (None, pool)" by (rule Pop_empty [OF inv])
  from AllocateNewPage_inv [OF inv _ room, of E] alloc
  obtain pool2 nfi where a: "AllocateNewPage E pool = Some pool2"
    "free_list_inv pool2 [?n]"
    "pPageList pool2 = pPageList pool @
               [\<lparr>Page_data = FixedSizeObjectPool_init (PageSize_T E) (NewAligned E ?n),
                 Page_pageIndex = of_nat ?n, nextFreeIndex = nfi\<rparr>]"
    "Pool_count pool2 = Pool_count pool" by blast
  have step1: "PagingObjectPool_Reserve E obj (pool, h) = PagingObjectPool_Reserve E obj (pool2, h)"
    by (subst PagingObjectPool_Reserve.simps) (simp add: pop a(1))
  obtain pool3 where p3: "PopPageFromFreeList pool2 = Some (Some ?n, pool3)"
    "free_list_inv pool3 []" "nextFreeIndex (pPageList pool3 ! ?n) = c_InvalidPageIndex"
    "length (pPageList pool3) = length (pPageList pool2)"
    "\<forall>j < length (pPageList pool2). Page_data (pPageList pool3 ! j) = Page_data (pPageList pool2 ! j)"
    "Pool_count pool3 = Pool_count pool2"
    using Pop_inv [OF a(2)] by blast
  have l3: "length (pPageList pool3) = Suc ?n" using p3(4) a(3) by simp
  have n3: "?n < length (pPageList pool3)" using l3 by simp
  have pd: "Page_data (pPageList pool3 ! ?n)
      = FixedSizeObjectPool_init (PageSize_T E) (NewAligned E ?n)"
    using p3(5) a(3) by simp
  have ok3: "pages_ok pool3"
    unfolding pages_ok_def
  proof (intro allI impI)
    fix j assume "j < length (pPageList pool3)"
    then have "j < ?n \<or> j = ?n" using l3 by auto
    then show "nodes (Page_data (pPageList pool3 ! j)) \<noteq> nullptr"
    proof
      assume j: "j < ?n"
      then have "Page_data (pPageList pool3 ! j) = Page_data (pPageList pool ! j)"
        using p3(5) a(3) by (simp add: nth_append)
      then show ?thesis using ok j by (simp add: pages_ok_def)
    next
      assume "j = ?n"
      then show ?thesis using pd alloc by (simp add: FixedSizeObjectPool_init_def)
    qed
  qed
  obtain fsp where r: "FixedSizeObjectPool_Reserve (PageSize_T E) (sizeof_Node E)
       \<lparr>data = obj, pageIndex = 0\<rparr> (Page_data (pPageList pool3 ! ?n), h)
       = (NewAligned E ?n, fsp, h(NewAligned E ?n \<mapsto> \<lparr>data = obj, pageIndex = 0\<rparr>))"
    using Reserve_fresh [OF ps] pd by metis
  have pn: "NewAligned E ?n \<noteq> nullptr" using alloc by simp
  from Reserve_success_branch [OF p3(2) ok3 n3 p3(3) r pn,
      of "\<lparr>data = obj, pageIndex = Page_pageIndex (pPageList pool3 ! ?n)\<rparr>"]
  obtain pool' xs' where s: "(let h2 = (h(NewAligned E ?n \<mapsto> \<lparr>data = obj, pageIndex = 0\<rparr>))
            (NewAligned E ?n \<mapsto> \<lparr>data = obj, pageIndex = Page_pageIndex (pPageList pool3 ! ?n)\<rparr>);
           pool2 = pool3\<lparr>pPageList := (pPageList pool3)[?n := (pPageList pool3 ! ?n)\<lparr>Page_data := fsp\<rparr>],
                         Pool_count := Pool_count pool3 + 1\<rparr>
       in if \<not> IsFull (PageSize_T E) fsp then
            (case PushPageToFreeList (Some ?n) pool2 of
               None \<Rightarrow> None
             | Some pool3 \<Rightarrow> Some (NewAligned E ?n, pool3, h2))
          else Some (NewAligned E ?n, pool2, h2))
       = Some (NewAligned E ?n, pool', h(NewAligned E ?n \<mapsto>
             \<lparr>data = obj, pageIndex = Page_pageIndex (pPageList pool3 ! ?n)\<rparr>))"
    "free_list_inv pool' xs'" "pages_ok pool'" "Pool_count pool' = Pool_count pool3 + 1"
    by blast
  have step2: "PagingObjectPool_Reserve E obj (pool2, h)
      = Some (NewAligned E ?n, pool', h(NewAligned E ?n \<mapsto>
             \<lparr>data = obj, pageIndex = Page_pageIndex (pPageList pool3 ! ?n)\<rparr>))"
    apply (subst PagingObjectPool_Reserve.simps)
    apply (simp only: prod.case option.case p3(1) page_at_def n3 if_True r pn
        not_False_eq_True)
    apply (rule s(1))
    done
  have r1: "PagingObjectPool_Reserve E obj (pool, h)
      = Some (NewAligned E ?n, pool', h(NewAligned E ?n \<mapsto>
             \<lparr>data = obj, pageIndex = Page_pageIndex (pPageList pool3 ! ?n)\<rparr>))"
    using step1 step2 by simp
  have c1: "Pool_count pool' = Pool_count pool + 1"
    using s(4) p3(6) a(4) by simp
  show ?case
    using r1 pn s(2,3) c1 by blast
next
  case (Cons x xs)
  note inv = Cons.prems(1) and ok = Cons.prems(2) and room = Cons.prems(3)
  obtain pool1 where p1: "PopPageFromFreeList pool = Some (Some x, pool1)"
    "free_list_inv pool1 xs" "nextFreeIndex (pPageList pool1 ! x) = c_InvalidPageIndex"
    "length (pPageList pool1) = length (pPageList pool)"
    "\<forall>j < length (pPageList pool). Page_data (pPageList pool1 ! j) = Page_data (pPageList pool ! j)"
    "Pool_count pool1 = Pool_count pool"
    using Pop_inv [OF inv] by blast
  from inv have x: "x < length (pPageList pool)" by (simp add: free_list_inv_def)
  then have x1: "x < length (pPageList pool1)" using p1(4) by simp
  have ok1: "pages_ok pool1" using ok p1(4,5) by (simp add: pages_ok_def)
  obtain p fsp h1 where r: "FixedSizeObjectPool_Reserve (PageSize_T E) (sizeof_Node E)
       \<lparr>data = obj, pageIndex = 0\<rparr> (Page_data (pPageList pool1 ! x), h) = (p, fsp, h1)"
    by (metis prod_cases3)
  show ?case
  proof (cases "p = nullptr")
    case False
    from Reserve_success_branch [OF p1(2) ok1 x1 p1(3) r False,
      of "\<lparr>data = obj, pageIndex = Page_pageIndex (pPageList pool1 ! x)\<rparr>"]
    obtain pool' xs' where s: "(let h2 = h1
            (p \<mapsto> \<lparr>data = obj, pageIndex = Page_pageIndex (pPageList pool1 ! x)\<rparr>);
           pool2 = pool1\<lparr>pPageList := (pPageList pool1)[x := (pPageList pool1 ! x)\<lparr>Page_data := fsp\<rparr>],
                         Pool_count := Pool_count pool1 + 1\<rparr>
       in if \<not> IsFull (PageSize_T E) fsp then
            (case PushPageToFreeList (Some x) pool2 of
               None \<Rightarrow> None
             | Some pool3 \<Rightarrow> Some (p, pool3, h2))
          else Some (p, pool2, h2))
       = Some (p, pool', h(p \<mapsto>
             \<lparr>data = obj, pageIndex = Page_pageIndex (pPageList pool1 ! x)\<rparr>))"
      "free_list_inv pool' xs'" "pages_ok pool'" "Pool_count pool' = Pool_count pool1 + 1"
      by blast
    have "PagingObjectPool_Reserve E obj (pool, h)
      = Some (p, pool', h(p \<mapsto>
             \<lparr>data = obj, pageIndex = Page_pageIndex (pPageList pool1 ! x)\<rparr>))"
      apply (subst PagingObjectPool_Reserve.simps)
      apply (simp only: prod.case option.case p1(1) page_at_def x1 if_True r False
          not_False_eq_True)
      apply (rule s(1))
      done
    moreover have "Pool_count pool' = Pool_count pool + 1" using s(4) p1(6) by simp
    ultimately show ?thesis using s(2,3) False by blast
  next
    case True
    have nn: "nodes (Page_data (pPageList pool1 ! x)) \<noteq> nullptr"
      using ok1 x1 by (simp add: pages_ok_def)
    have same: "h1 = h" "fsp = Page_data (pPageList pool1 ! x)"
      using FSP_Reserve_result(2,4) [OF r] True nn by simp_all
    have upd: "pool1\<lparr>pPageList := (pPageList pool1)[x := (pPageList pool1 ! x)\<lparr>Page_data := fsp\<rparr>]\<rparr> = pool1"
      by (simp add: same)
    have step: "PagingObjectPool_Reserve E obj (pool, h) = PagingObjectPool_Reserve E obj (pool1, h)"
      apply (subst PagingObjectPool_Reserve.simps)
      apply (simp only: prod.case option.case p1(1) page_at_def x1 if_True r True
          not_True_eq_False if_False upd same(1) simp_thms)
      done
    have room1: "length (pPageList pool1) < unat c_MaxPages" using room p1(4) by simp
    from Cons.IH [OF p1(2) ok1 room1] step p1(6) show ?thesis by simp
  qed
qed

lemma init_free_list_inv: "free_list_inv PagingObjectPool_init []"
  by (simp add: free_list_inv_def PagingObjectPool_init_def headPageIndex_def headNextIndex_def
      c_emptyFreeListHeadIndex_def c_TailPageIndex_def c_headPageIndexMask_def
      c_headNextIndexMask_def c_bitIndexHeadPageIndex_def c_bitIndexHeadNextIndex_def)

lemma PagingObjectPool_Release_inv:
  assumes inv: "free_list_inv pool xs" and obj: "h pObject \<noteq> None"
  shows "\<exists>r pool' h' xs'. PagingObjectPool_Release E (pool, h) pObject = Some (r, pool', h')
           \<and> free_list_inv pool' xs'"
proof (cases "pObject = nullptr")
  case True
  then show ?thesis using inv by (auto simp: PagingObjectPool_Release_def)
next
  case False
  from obj obtain n where n: "h pObject = Some n" by auto
  from inv have len: "length (pPageList pool) \<le> unat c_MaxPages" by (simp add: free_list_inv_def)
  show ?thesis
  proof (cases "pageIndex n < numPages pool")
    case False
    then show ?thesis using inv n \<open>pObject \<noteq> nullptr\<close>
      by (auto simp: PagingObjectPool_Release_def)
  next
    case True
    let ?i = "unat (pageIndex n)"
    have i: "?i < length (pPageList pool)" using True less_numPages_iff [OF len] by simp
    obtain b fsp h1 where r: "FixedSizeObjectPool_Release (PageSize_T E) (sizeof_Node E)
         (Page_data (pPageList pool ! ?i), h) pObject = (b, fsp, h1)"
      by (metis prod_cases3)
    define pool2 where "pool2 = pool\<lparr>pPageList := (pPageList pool)
          [?i := (pPageList pool ! ?i)\<lparr>Page_data := fsp\<rparr>],
          Pool_count := (if b then Pool_count pool - 1 else Pool_count pool)\<rparr>"
    have inv2: "free_list_inv pool2 xs"
      by (rule free_list_inv_Page_data [OF inv, of "pPageList pool2"])
        (use i in \<open>auto simp: pool2_def nth_list_update\<close>)
    have i2: "?i < length (pPageList pool2)" using i by (simp add: pool2_def)
    have "\<exists>pool' xs'. PushPageToFreeList (Some ?i) pool2 = Some pool' \<and> free_list_inv pool' xs'"
    proof (cases "nextFreeIndex (pPageList pool2 ! ?i) = c_InvalidPageIndex")
      case True
      then show ?thesis using Push_inv [OF inv2 i2] by blast
    next
      case False
      then show ?thesis using Push_abort [OF i2] inv2 by blast
    qed
    then obtain pool' xs' where p: "PushPageToFreeList (Some ?i) pool2 = Some pool'"
      "free_list_inv pool' xs'" by blast
    have "PagingObjectPool_Release E (pool, h) pObject = Some (b, pool', h1)"
      using \<open>pObject \<noteq> nullptr\<close> n True i r p(1)
      by (simp add: PagingObjectPool_Release_def page_at_def pool2_def)
    then show ?thesis using p(2) by blast
  qed
qed

text \<open>
  C8. For a pool whose free-page list holds the pages \<open>xs\<close> and for a page \<open>i\<close>
  of the pool: the page's \<open>nextFreeIndex\<close> is INVALID exactly when the page is not
  among \<open>xs\<close>; pushing a page whose \<open>nextFreeIndex\<close> is not INVALID returns with
  the pool, and so the head word, unchanged; pushing a page that is off the list puts
  it in front of the list; popping from the empty list returns the null pointer and
  leaves the pool as it is, and popping otherwise returns the head page with its
  \<open>nextFreeIndex\<close> set to INVALID and the rest of the list enqueued. The invariant
  holds for the pool as constructed (\<open>init_free_list_inv\<close>) and is kept by
  \<open>AllocateNewPage\<close>, \<open>Reserve\<close> and \<open>Release\<close> as well
  (\<open>AllocateNewPage_inv\<close>, \<open>PagingObjectPool_Reserve_returns\<close>,
  \<open>PagingObjectPool_Release_inv\<close>). The operations are those of a single thread:
  between the two compare-and-swaps of a push the page is marked SWAPPING and not yet
  enqueued.
\<close>

theorem free_page_list_invariant:
  assumes inv: "free_list_inv pool xs" and i: "i < length (pPageList pool)"
  shows "(nextFreeIndex (pPageList pool ! i) = c_InvalidPageIndex \<longleftrightarrow> i \<notin> set xs)
    \<and> (nextFreeIndex (pPageList pool ! i) \<noteq> c_InvalidPageIndex \<longrightarrow>
         PushPageToFreeList (Some i) pool = Some pool)
    \<and> (nextFreeIndex (pPageList pool ! i) = c_InvalidPageIndex \<longrightarrow>
         (\<exists>pool'. PushPageToFreeList (Some i) pool = Some pool' \<and> free_list_inv pool' (i # xs)))
    \<and> (case xs of
          [] \<Rightarrow> PopPageFromFreeList pool = Some (None, pool)
        | x # rest \<Rightarrow>
            (\<exists>pool'. PopPageFromFreeList pool = Some (Some x, pool')
               \<and> free_list_inv pool' rest
               \<and> nextFreeIndex (pPageList pool' ! x) = c_InvalidPageIndex))"
proof (intro conjI impI)
  show "nextFreeIndex (pPageList pool ! i) = c_InvalidPageIndex \<longleftrightarrow> i \<notin> set xs"
    using inv i by (simp add: free_list_inv_def)
next
  assume "nextFreeIndex (pPageList pool ! i) \<noteq> c_InvalidPageIndex"
  then show "PushPageToFreeList (Some i) pool = Some pool"
    using Push_abort [OF i] by simp
next
  assume "nextFreeIndex (pPageList pool ! i) = c_InvalidPageIndex"
  then show "\<exists>pool'. PushPageToFreeList (Some i) pool = Some pool' \<and> free_list_inv pool' (i # xs)"
    using Push_inv [OF inv i] by blast
next
  show "case xs of
          [] \<Rightarrow> PopPageFromFreeList pool = Some (None, pool)
        | x # rest \<Rightarrow>
            (\<exists>pool'. PopPageFromFreeList pool = Some (Some x, pool')
               \<and> free_list_inv pool' rest
               \<and> nextFreeIndex (pPageList pool' ! x) = c_InvalidPageIndex)"
  proof (cases xs)
    case Nil
    then show ?thesis using Pop_empty inv by simp
  next
    case (Cons x rest)
    then show ?thesis using Pop_inv [of pool x rest] inv by auto
  qed
qed

lemma example_pool_inv: "free_list_inv example_pool [0]"
  by (simp add: free_list_inv_def example_pool_def headPageIndex_def headNextIndex_def
      packHead_def c_MaxPages_def
      c_TailPageIndex_def c_InvalidPageIndex_def c_headPageIndexMask_def
      c_headNextIndexMask_def c_bitIndexHeadPageIndex_def c_bitIndexHeadNextIndex_def
      c_bitIndexHeadCounter_def less_Suc_eq)

theorem free_page_list_invariant_witness:
  "nextFreeIndex (pPageList example_pool ! 1) = c_InvalidPageIndex
   \<and> nextFreeIndex (pPageList example_pool ! 0) \<noteq> c_InvalidPageIndex
   \<and> PushPageToFreeList (Some 0) example_pool = Some example_pool
   \<and> (\<exists>pool'. PushPageToFreeList (Some 1) example_pool = Some pool'
         \<and> free_list_inv pool' [1, 0])
   \<and> (\<exists>pool'. PopPageFromFreeList example_pool = Some (Some 0, pool')
         \<and> free_list_inv pool' []
         \<and> nextFreeIndex (pPageList pool' ! 0) = c_InvalidPageIndex)"
proof -
  have l: "0 < length (pPageList example_pool)" "1 < length (pPageList example_pool)"
    by (simp_all add: example_pool_def)
  have n1: "nextFreeIndex (pPageList example_pool ! 1) = c_InvalidPageIndex"
    and n0: "nextFreeIndex (pPageList example_pool ! 0) \<noteq> c_InvalidPageIndex"
    by (simp_all add: example_pool_def c_TailPageIndex_def c_InvalidPageIndex_def)
  show ?thesis
    using free_page_list_invariant [OF example_pool_inv l(1)]
      free_page_list_invariant [OF example_pool_inv l(2)] n0 n1
    by simp
qed

lemma ucast_pow: "j < 32 \<Longrightarrow> (ucast (2 ^ j :: u32) :: u64) = 2 ^ j"
  by (rule bit_word_eqI) (auto simp: bit_simps)

lemma unat_take_bit_less: "unat (take_bit j (hash :: u64)) < 2 ^ j"
  by (simp add: unsigned_take_bit_eq)

lemma unat_ucast_take_bit: "j < 32 \<Longrightarrow> unat (ucast (take_bit j (hash :: u64)) :: u32) = unat (take_bit j hash)"
proof -
  assume j: "j < 32"
  have "unat (take_bit j hash) < 2 ^ j" by (rule unat_take_bit_less)
  also have "(2::nat) ^ j < 2 ^ 32" using j by (rule power_strict_increasing) simp
  finally have "unat (take_bit j hash) < 2 ^ 32" .
  then have "take_bit 32 (unat (take_bit j hash)) = unat (take_bit j hash)"
    by (simp only: take_bit_nat_eq_self_iff)
  moreover have "unat (ucast (take_bit j hash) :: u32) = take_bit 32 (unat (take_bit j hash))"
    using unsigned_ucast_eq [of "take_bit j hash", where 'a = nat and 'c = 32] by simp
  ultimately show ?thesis by (simp only:)
qed

lemma unat_pow32:
  assumes "j < 32"
  shows "unat (2 ^ j :: u32) = 2 ^ j"
proof -
  have lt: "(2::nat) ^ j < 2 ^ 32" using assms by (rule power_strict_increasing) simp
  have "(2 ^ j :: u32) = of_nat (2 ^ j)" by simp
  then have "unat (2 ^ j :: u32) = 2 ^ j mod 2 ^ 32"
    by (simp only: unat_of_nat) simp
  with lt show ?thesis by simp
qed

lemma Compare_eq_0 [simp]: "Compare (a :: 'k :: linorder) b = 0 \<longleftrightarrow> a = b"
  by (auto simp: Compare_def)

lemma GetIndex_less:
  assumes "is_pow2 n"
  shows "unat (GetIndex n hash) < unat n"
proof -
  from assms obtain j where j: "j < 32" "n = 2 ^ j" by (auto simp: is_pow2_def)
  have "GetIndex n hash = ucast (hash AND mask j)"
    by (simp only: GetIndex_def j(2) ucast_pow [OF j(1)] mask_eq_exp_minus_1)
  also have "\<dots> = ucast (take_bit j hash)" by (simp only: take_bit_eq_mask)
  finally have "unat (GetIndex n hash) = unat (take_bit j hash)"
    using unat_ucast_take_bit [OF j(1)] by simp
  moreover have "unat n = 2 ^ j" using j unat_pow32 by simp
  ultimately show ?thesis using unat_take_bit_less [of j hash] by simp
qed

subsection \<open>The shard\<close>

text \<open>\<open>Find_Unsafe\<close> and \<open>Erase_Unsafe\<close> on a chain of constructed nodes.\<close>

lemma Find_Unsafe_spec:
  fixes k :: "'k::linorder"
  assumes "\<forall>q \<in> set c. h q \<noteq> None"
  shows "\<exists>r. Find_Unsafe h c k = Some r
     \<and> ((r \<in> set c \<and> node_key h r = Some k) \<or> (r = nullptr \<and> (\<forall>q \<in> set c. node_key h q \<noteq> Some k)))"
  using assms
proof (induction c)
  case Nil
  then show ?case by simp
next
  case (Cons q c)
  then obtain n where n: "h q = Some n" by auto
  show ?case
  proof (cases "key (data n) = k")
    case True
    then show ?thesis using n by (simp add: node_key_def)
  next
    case False
    from Cons obtain r where r: "Find_Unsafe h c k = Some r"
      "(r \<in> set c \<and> node_key h r = Some k) \<or> (r = nullptr \<and> (\<forall>q \<in> set c. node_key h q \<noteq> Some k))"
      by auto
    then show ?thesis using n False by (auto simp: node_key_def)
  qed
qed

lemma Erase_Unsafe_spec:
  fixes k :: "'k::linorder"
  assumes "\<forall>q \<in> set c. h q \<noteq> None"
  shows "\<exists>r c'. Erase_Unsafe h c k = Some (r, c')
     \<and> ((r \<in> set c \<and> node_key h r = Some k \<and> set c' \<subseteq> set c \<and> set c \<subseteq> insert r (set c'))
         \<or> (r = nullptr \<and> c' = c \<and> (\<forall>q \<in> set c. node_key h q \<noteq> Some k)))"
  using assms
proof (induction c)
  case Nil
  then show ?case by simp
next
  case (Cons q c)
  then obtain n where n: "h q = Some n" by auto
  show ?case
  proof (cases "key (data n) = k")
    case True
    then show ?thesis using n by (auto simp: node_key_def)
  next
    case False
    from Cons obtain r c' where r: "Erase_Unsafe h c k = Some (r, c')"
      "(r \<in> set c \<and> node_key h r = Some k \<and> set c' \<subseteq> set c \<and> set c \<subseteq> insert r (set c'))
         \<or> (r = nullptr \<and> c' = c \<and> (\<forall>q \<in> set c. node_key h q \<noteq> Some k))"
      by auto
    then show ?thesis using n False by (auto simp: node_key_def)
  qed
qed

lemma relink_bucket_spec:
  assumes "\<forall>q \<in> set c. q \<noteq> nullptr \<and> h q \<noteq> None"
    and "\<forall>hash. unat (GetIndex nb hash) < length B"
  shows "\<exists>h' B'. relink_bucket E nb c (h, B) = Some (h', B')
     \<and> length B' = length B
     \<and> (\<forall>q. h' q = (if q \<in> set c then map_option (set_bucket_field (new_index E nb h q)) (h q)
                     else h q))
     \<and> (\<forall>j < length B. B' ! j = rev (filter (\<lambda>q. unat (new_index E nb h q) = j) c) @ B ! j)"
  using assms
proof (induction c arbitrary: h B)
  case Nil
  then show ?case by simp
next
  case (Cons q c)
  from Cons.prems obtain n where n: "h q = Some n" and qn: "q \<noteq> nullptr" by auto
  let ?i = "GetIndex nb (Hash64 E (key (data n)))"
  let ?h1 = "h(q \<mapsto> n\<lparr>data := (data n)\<lparr>bucket := ?i\<rparr>\<rparr>)"
  let ?B1 = "B[unat ?i := q # B ! unat ?i]"
  have iq: "new_index E nb h q = ?i" by (simp add: new_index_def node_key_def n)
  have il: "unat ?i < length B" using Cons.prems(2) by simp
  have keys: "\<And>p. node_key ?h1 p = node_key h p"
    by (simp add: node_key_def n)
  then have idx: "\<And>p. new_index E nb ?h1 p = new_index E nb h p"
    by (simp add: new_index_def)
  have live1: "\<forall>p \<in> set c. p \<noteq> nullptr \<and> ?h1 p \<noteq> None" using Cons.prems(1) by auto
  have len1: "\<forall>hash. unat (GetIndex nb hash) < length ?B1" using Cons.prems(2) by simp
  from Cons.IH [OF live1 len1]
  obtain h' B' where r: "relink_bucket E nb c (?h1, ?B1) = Some (h', B')"
    "length B' = length ?B1"
    "\<forall>p. h' p = (if p \<in> set c then map_option (set_bucket_field (new_index E nb ?h1 p)) (?h1 p)
                     else ?h1 p)"
    "\<forall>j < length ?B1. B' ! j = rev (filter (\<lambda>p. unat (new_index E nb ?h1 p) = j) c) @ ?B1 ! j"
    by blast
  have step: "relink_bucket E nb (q # c) (h, B) = Some (h', B')"
    using n qn il r(1) by (simp add: bucket_at_def Insert_Unsafe_def Let_def)
  have mem: "\<forall>p. h' p = (if p \<in> set (q # c)
        then map_option (set_bucket_field (new_index E nb h p)) (h p) else h p)"
  proof
    fix p
    show "h' p = (if p \<in> set (q # c)
        then map_option (set_bucket_field (new_index E nb h p)) (h p) else h p)"
    proof (cases "p = q")
      case True
      then show ?thesis using r(3) n iq
        by (auto simp: idx set_bucket_field_def)
    next
      case False
      then show ?thesis using r(3) by (simp add: idx)
    qed
  qed
  have chains: "\<forall>j < length B. B' ! j
      = rev (filter (\<lambda>p. unat (new_index E nb h p) = j) (q # c)) @ B ! j"
  proof (intro allI impI)
    fix j assume j: "j < length B"
    then have "B' ! j = rev (filter (\<lambda>p. unat (new_index E nb h p) = j) c) @ ?B1 ! j"
      using r(4) by (simp add: idx)
    then show "B' ! j = rev (filter (\<lambda>p. unat (new_index E nb h p) = j) (q # c)) @ B ! j"
      using j il iq by (auto simp: nth_list_update)
  qed
  show ?case using step r(2) mem chains by simp
qed

lemma relink_buckets_concat:
  "relink_buckets E nb bs s = relink_bucket E nb (concat bs) s"
proof (induction bs arbitrary: s)
  case Nil
  then show ?case by simp
next
  case (Cons b bs)
  have app: "\<And>c2 s. relink_bucket E nb (b @ c2) s
      = (case relink_bucket E nb b s of None \<Rightarrow> None | Some s' \<Rightarrow> relink_bucket E nb c2 s')"
  proof (induction b)
    case Nil
    then show ?case by simp
  next
    case (Cons a b)
    obtain h B where s: "s = (h, B)" by (cases s)
    show ?case
      by (simp add: s Cons.IH Let_def split: option.splits)
  qed
  show ?case by (simp add: app Cons.IH split: option.splits)
qed

lemma reachable_nodes_iff:
  "q \<in> set (reachable_nodes im) \<longleftrightarrow> (\<exists>b < length (buckets im). q \<in> set (buckets im ! b))"
proof -
  have "q \<in> set (concat (buckets im)) \<longleftrightarrow> (\<exists>c \<in> set (buckets im). q \<in> set c)" by simp
  also have "\<dots> \<longleftrightarrow> (\<exists>b < length (buckets im). q \<in> set (buckets im ! b))"
    by (metis in_set_conv_nth)
  finally show ?thesis by (simp add: reachable_nodes_def)
qed

lemma Resize_spec:
  assumes live: "\<forall>q \<in> set (reachable_nodes im). q \<noteq> nullptr \<and> h q \<noteq> None"
    and len: "length (buckets im) = unat (numBuckets im)"
    and p2: "is_pow2 n"
  shows "\<exists>h' B'. Resize E n (h, im)
        = Some (h', im\<lparr>buckets := B', numBuckets := n, fillCapacity := (n * 7) div 8\<rparr>)
     \<and> length B' = unat n
     \<and> (\<forall>q. h' q = (if q \<in> set (reachable_nodes im)
                     then map_option (set_bucket_field (new_index E n h q)) (h q) else h q))
     \<and> (\<forall>j < unat n. B' ! j
           = rev (filter (\<lambda>q. unat (new_index E n h q) = j) (reachable_nodes im)))"
proof -
  let ?c = "reachable_nodes im"
  let ?B = "replicate (unat n) ([] :: chain)"
  have l: "\<forall>q \<in> set ?c. q \<noteq> nullptr \<and> h q \<noteq> None" using live .
  have g: "\<forall>hash. unat (GetIndex n hash) < length ?B"
    using GetIndex_less [OF p2] by simp
  from relink_bucket_spec [OF l g, of E]
  obtain h' B' where r: "relink_bucket E n ?c (h, ?B) = Some (h', B')"
    "length B' = length ?B"
    "\<forall>q. h' q = (if q \<in> set ?c then map_option (set_bucket_field (new_index E n h q)) (h q)
                     else h q)"
    "\<forall>j < length ?B. B' ! j = rev (filter (\<lambda>q. unat (new_index E n h q) = j) ?c) @ ?B ! j"
    by blast
  have "Resize E n (h, im)
        = Some (h', im\<lparr>buckets := B', numBuckets := n, fillCapacity := (n * 7) div 8\<rparr>)"
    using r(1) len by (simp add: Resize_def relink_buckets_concat reachable_nodes_def)
  moreover have "\<forall>j < unat n. B' ! j
           = rev (filter (\<lambda>q. unat (new_index E n h q) = j) ?c)"
    using r(4) by simp
  ultimately show ?thesis using r(2,3) by auto
qed

lemma set_bucket_field_key [simp]:
  "key (data (set_bucket_field b n)) = key (data n)"
  "value (data (set_bucket_field b n)) = value (data n)"
  "bucket (data (set_bucket_field b n)) = b"
  "pageIndex (set_bucket_field b n) = pageIndex n"
  by (simp_all add: set_bucket_field_def)

lemma Resize_shard_wf:
  assumes live: "\<forall>q \<in> set (reachable_nodes im). q \<noteq> nullptr \<and> h q \<noteq> None"
    and len: "length (buckets im) = unat (numBuckets im)"
    and p2: "is_pow2 n"
  shows "\<exists>h' im'. Resize E n (h, im) = Some (h', im')
     \<and> shard_wf E h' im'
     \<and> numBuckets im' = n \<and> fillCapacity im' = (n * 7) div 8 \<and> count im' = count im
     \<and> set (reachable_nodes im') = set (reachable_nodes im)
     \<and> (\<forall>q. node_key h' q = node_key h q \<and> node_value h' q = node_value h q)
     \<and> (\<forall>q. q \<notin> set (reachable_nodes im) \<longrightarrow> h' q = h q)
     \<and> (\<forall>q \<in> set (reachable_nodes im).
           q \<in> set (buckets im' ! unat (new_index E n h q))
         \<and> node_bucket h' q = Some (new_index E n h q))"
proof -
  let ?c = "reachable_nodes im"
  from Resize_spec [OF live len p2, of E]
  obtain h' B' where r: "Resize E n (h, im)
        = Some (h', im\<lparr>buckets := B', numBuckets := n, fillCapacity := (n * 7) div 8\<rparr>)"
    "length B' = unat n"
    "\<forall>q. h' q = (if q \<in> set ?c
                     then map_option (set_bucket_field (new_index E n h q)) (h q) else h q)"
    "\<forall>j < unat n. B' ! j = rev (filter (\<lambda>q. unat (new_index E n h q) = j) ?c)"
    by blast
  define im' where "im' = im\<lparr>buckets := B', numBuckets := n, fillCapacity := (n * 7) div 8\<rparr>"
  have keys: "\<forall>q. node_key h' q = node_key h q \<and> node_value h' q = node_value h q"
    using r(3) by (auto simp: node_key_def node_value_def option.map_comp comp_def
        split: option.splits)
  have idxlt: "\<And>q. unat (new_index E n h q) < unat n"
    using GetIndex_less [OF p2] by (simp add: new_index_def)
  have members: "\<And>q. q \<in> set ?c \<Longrightarrow> q \<in> set (B' ! unat (new_index E n h q))"
    using r(4) idxlt by simp
  have sub: "\<And>j q. j < unat n \<Longrightarrow> q \<in> set (B' ! j) \<Longrightarrow> q \<in> set ?c \<and> unat (new_index E n h q) = j"
    using r(4) by simp
  have seteq: "set (reachable_nodes im') = set ?c"
  proof
    show "set (reachable_nodes im') \<subseteq> set ?c"
      using sub r(2) by (auto simp: reachable_nodes_iff im'_def)
    show "set ?c \<subseteq> set (reachable_nodes im')"
    proof
      fix q assume "q \<in> set ?c"
      then have "q \<in> set (B' ! unat (new_index E n h q))" by (rule members)
      then show "q \<in> set (reachable_nodes im')"
        using idxlt [of q] r(2) unfolding reachable_nodes_iff by (auto simp: im'_def)
    qed
  qed
  have pos: "\<forall>b < length (buckets im'). \<forall>q \<in> set (buckets im' ! b).
         q \<noteq> nullptr
       \<and> (\<exists>k. node_key h' q = Some k \<and> unat (GetIndex (numBuckets im') (Hash64 E k)) = b)"
  proof (intro allI impI ballI)
    fix b q assume b: "b < length (buckets im')" and q: "q \<in> set (buckets im' ! b)"
    then have qc: "q \<in> set ?c" and ib: "unat (new_index E n h q) = b"
      using sub [of b q] r(2) by (simp_all add: im'_def)
    from qc live obtain nd where nd: "h q = Some nd" and qn: "q \<noteq> nullptr" by auto
    have "node_key h' q = Some (key (data nd))" using keys nd by (simp add: node_key_def)
    moreover have "unat (GetIndex n (Hash64 E (key (data nd)))) = b"
      using ib nd by (simp add: new_index_def node_key_def)
    ultimately show "q \<noteq> nullptr
       \<and> (\<exists>k. node_key h' q = Some k \<and> unat (GetIndex (numBuckets im') (Hash64 E k)) = b)"
      using qn by (simp add: im'_def)
  qed
  have inv: "shard_wf E h' im'"
    unfolding shard_wf_def
    using p2 r(2) pos by (simp add: im'_def)
  have fields: "\<forall>q \<in> set ?c. q \<in> set (buckets im' ! unat (new_index E n h q))
         \<and> node_bucket h' q = Some (new_index E n h q)"
  proof
    fix q assume qc: "q \<in> set ?c"
    with live obtain nd where nd: "h q = Some nd" by auto
    have "node_bucket h' q = Some (new_index E n h q)"
      using r(3) qc nd by (simp add: node_bucket_def)
    then show "q \<in> set (buckets im' ! unat (new_index E n h q))
         \<and> node_bucket h' q = Some (new_index E n h q)"
      using members [OF qc] by (simp add: im'_def)
  qed
  have frame: "\<forall>q. q \<notin> set ?c \<longrightarrow> h' q = h q" using r(3) by simp
  show ?thesis
    using r(1) inv keys seteq fields frame unfolding im'_def [symmetric]
    by (intro exI [of _ h'] exI [of _ im']) (simp add: im'_def)
qed

lemma shard_wf_live:
  assumes "shard_wf E h im"
  shows "\<forall>q \<in> set (reachable_nodes im). q \<noteq> nullptr \<and> h q \<noteq> None"
proof
  fix q assume "q \<in> set (reachable_nodes im)"
  then obtain b where b: "b < length (buckets im)" "q \<in> set (buckets im ! b)"
    unfolding reachable_nodes_iff by blast
  from assms have "\<forall>b < length (buckets im). \<forall>q \<in> set (buckets im ! b). q \<noteq> nullptr
             \<and> (\<exists>k. node_key h q = Some k \<and> unat (GetIndex (numBuckets im) (Hash64 E k)) = b)"
    by (simp add: shard_wf_def)
  with b have "q \<noteq> nullptr \<and> (\<exists>k. node_key h q = Some k)" by blast
  then show "q \<noteq> nullptr \<and> h q \<noteq> None" by (auto simp: node_key_def)
qed

lemma InnerMap_Find_spec:
  fixes k :: "'k::linorder"
  assumes inv: "shard_wf E h im"
  shows "\<exists>r. InnerMap_Find_Lockless (Hash64 E k) k h im = Some r
     \<and> bucket_at (buckets im) (GetIndex (numBuckets im) (Hash64 E k))
         = Some (buckets im ! unat (GetIndex (numBuckets im) (Hash64 E k)))
     \<and> Find_Unsafe h (buckets im ! unat (GetIndex (numBuckets im) (Hash64 E k))) k = Some r
     \<and> ((r \<in> set (reachable_nodes im) \<and> r \<noteq> nullptr \<and> node_key h r = Some k)
        \<or> (r = nullptr \<and> (\<forall>q \<in> set (reachable_nodes im). node_key h q \<noteq> Some k)))"
proof -
  let ?b = "unat (GetIndex (numBuckets im) (Hash64 E k))"
  let ?c = "buckets im ! ?b"
  from inv have p2: "is_pow2 (numBuckets im)" and len: "length (buckets im) = unat (numBuckets im)"
    and pos: "\<forall>b < length (buckets im). \<forall>q \<in> set (buckets im ! b).
         q \<noteq> nullptr
       \<and> (\<exists>k. node_key h q = Some k \<and> unat (GetIndex (numBuckets im) (Hash64 E k)) = b)"
    by (simp_all add: shard_wf_def)
  have b: "?b < length (buckets im)" using GetIndex_less [OF p2] len by simp
  then have ba: "bucket_at (buckets im) (GetIndex (numBuckets im) (Hash64 E k)) = Some ?c"
    by (simp add: bucket_at_def)
  have sub: "set ?c \<subseteq> set (reachable_nodes im)"
    using b reachable_nodes_iff by blast
  have live: "\<forall>q \<in> set ?c. h q \<noteq> None"
    using shard_wf_live [OF inv] sub by auto
  from Find_Unsafe_spec [OF live, of k]
  obtain r where r: "Find_Unsafe h ?c k = Some r"
    "(r \<in> set ?c \<and> node_key h r = Some k) \<or> (r = nullptr \<and> (\<forall>q \<in> set ?c. node_key h q \<noteq> Some k))"
    by blast
  have "(r \<in> set (reachable_nodes im) \<and> r \<noteq> nullptr \<and> node_key h r = Some k)
        \<or> (r = nullptr \<and> (\<forall>q \<in> set (reachable_nodes im). node_key h q \<noteq> Some k))"
  proof (cases "r \<in> set ?c \<and> node_key h r = Some k")
    case True
    then show ?thesis using sub pos b by auto
  next
    case False
    with r(2) have rn: "r = nullptr" and none: "\<forall>q \<in> set ?c. node_key h q \<noteq> Some k" by auto
    have "\<forall>q \<in> set (reachable_nodes im). node_key h q \<noteq> Some k"
    proof
      fix q assume "q \<in> set (reachable_nodes im)"
      then obtain b' where b': "b' < length (buckets im)" "q \<in> set (buckets im ! b')"
        unfolding reachable_nodes_iff by blast
      show "node_key h q \<noteq> Some k"
      proof
        assume kq: "node_key h q = Some k"
        with pos b' have "?b = b'" by fastforce
        with b' none kq show False by auto
      qed
    qed
    with rn show ?thesis by simp
  qed
  then show ?thesis using r(1) ba by (simp add: InnerMap_Find_Lockless_def)
qed

lemma c_powerOfTwoTable_eq: "c_powerOfTwoTable = map (\<lambda>j. 2 ^ j) [0..<32]"
  unfolding c_powerOfTwoTable_def by code_simp

lemma pow_mono32:
  assumes "i \<le> j" "j < 32"
  shows "(2::u32) ^ i \<le> 2 ^ j"
  using assms by (simp add: word_le_nat_alt unat_pow32)

lemma find_table:
  "find P (map f [0..<n]) = Some x
     \<longleftrightarrow> (\<exists>i < n. P (f i) \<and> x = f i \<and> (\<forall>j < i. \<not> P (f j)))"
  by (auto simp: find_Some_iff)

lemma GetNextPowerOfTwo_is_pow2: "is_pow2 (GetNextPowerOfTwo v)"
proof (cases "find (\<lambda>entry. v \<le> entry) c_powerOfTwoTable")
  case None
  then have "GetNextPowerOfTwo v = 2 ^ 31"
    by (simp add: GetNextPowerOfTwo_def c_numPowerOfTwoEntries_def c_powerOfTwoTable_def)
  then show ?thesis unfolding is_pow2_def by (intro exI [of _ 31]) simp
next
  case (Some x)
  then obtain i where "i < 32" "x = 2 ^ i"
    unfolding c_powerOfTwoTable_eq find_table by blast
  with Some show ?thesis by (auto simp: GetNextPowerOfTwo_def is_pow2_def)
qed

lemma GetNextPowerOfTwo_least:
  assumes v: "v \<le> 0x80000000"
  shows "v \<le> GetNextPowerOfTwo v \<and> (\<forall>m. is_pow2 m \<and> v \<le> m \<longrightarrow> GetNextPowerOfTwo v \<le> m)"
proof (cases "find (\<lambda>entry. v \<le> entry) c_powerOfTwoTable")
  case None
  then have "\<forall>x \<in> {0..<32::nat}. \<not> v \<le> 2 ^ x"
    unfolding c_powerOfTwoTable_eq find_None_iff by simp
  then have "\<not> v \<le> 2 ^ 31" by (rule bspec) simp
  with v show ?thesis by simp
next
  case (Some x)
  then obtain i where i: "i < 32" "x = 2 ^ i" "v \<le> 2 ^ i" "\<forall>j < i. \<not> v \<le> 2 ^ j"
    unfolding c_powerOfTwoTable_eq find_table by blast
  have g: "GetNextPowerOfTwo v = 2 ^ i" using Some i by (simp add: GetNextPowerOfTwo_def)
  have "\<forall>m. is_pow2 m \<and> v \<le> m \<longrightarrow> 2 ^ i \<le> m"
  proof (intro allI impI)
    fix m assume m: "is_pow2 m \<and> v \<le> m"
    then obtain j where j: "j < 32" "m = 2 ^ j" unfolding is_pow2_def by blast
    with m i(4) have "\<not> j < i" by auto
    then show "2 ^ i \<le> m" using j pow_mono32 [of i j] by simp
  qed
  with g i(3) show ?thesis by simp
qed

lemma GetNextPowerOfTwo_clamp:
  assumes v: "0x80000000 < v"
  shows "GetNextPowerOfTwo v = 0x80000000"
proof -
  have "\<forall>j < 32. \<not> v \<le> (2::u32) ^ j"
  proof (intro allI impI)
    fix j :: nat assume "j < 32"
    then have "(2::u32) ^ j \<le> 2 ^ 31" using pow_mono32 [of j 31] by simp
    with v show "\<not> v \<le> 2 ^ j" by simp
  qed
  then have "find (\<lambda>entry. v \<le> entry) c_powerOfTwoTable = None"
    unfolding c_powerOfTwoTable_eq find_None_iff by simp
  then show ?thesis
    by (simp add: GetNextPowerOfTwo_def c_numPowerOfTwoEntries_def c_powerOfTwoTable_def)
qed

lemma shard_wf_count [simp]: "shard_wf E h (im\<lparr>count := c\<rparr>) = shard_wf E h im"
  by (simp add: shard_wf_def reachable_nodes_def)

lemma reachable_nodes_count [simp]: "reachable_nodes (im\<lparr>count := c\<rparr>) = reachable_nodes im"
  by (simp add: reachable_nodes_def)

lemma Insert_prep:
  assumes ok: "shard_ok E h im"
  shows "\<exists>h2 im2.
      (if fillCapacity im < count im + 1
       then Resize E (GetNextPowerOfTwo ((count im + 1) * 2)) (h, im\<lparr>count := count im + 1\<rparr>)
       else Some (h, im\<lparr>count := count im + 1\<rparr>)) = Some (h2, im2)
    \<and> shard_wf E h2 im2
    \<and> set (reachable_nodes im2) = set (reachable_nodes im)
    \<and> (\<forall>q. node_key h2 q = node_key h q \<and> node_value h2 q = node_value h q)
    \<and> (\<forall>q. q \<notin> set (reachable_nodes im) \<longrightarrow> h2 q = h q)
    \<and> count im2 = count im + 1
    \<and> (if fillCapacity im < count im + 1
        then numBuckets im2 = GetNextPowerOfTwo ((count im + 1) * 2)
           \<and> fillCapacity im2 = (numBuckets im2 * 7) div 8
           \<and> (\<forall>q \<in> set (reachable_nodes im).
                 q \<in> set (buckets im2 ! unat (new_index E (numBuckets im2) h q))
               \<and> node_bucket h2 q = Some (new_index E (numBuckets im2) h q))
        else numBuckets im2 = numBuckets im \<and> buckets im2 = buckets im \<and> h2 = h)"
proof (cases "fillCapacity im < count im + 1")
  case False
  with ok have "shard_wf E h im" by (auto simp: shard_ok_def InnerMap_init_def)
  with False show ?thesis by simp
next
  case True
  let ?im1 = "im\<lparr>count := count im + 1\<rparr>"
  let ?n = "GetNextPowerOfTwo ((count im + 1) * 2)"
  have live: "\<forall>q \<in> set (reachable_nodes ?im1). q \<noteq> nullptr \<and> h q \<noteq> None"
    using ok shard_wf_live [of E h im]
    by (auto simp: shard_ok_def InnerMap_init_def reachable_nodes_def)
  have len: "length (buckets ?im1) = unat (numBuckets ?im1)"
    using ok by (auto simp: shard_ok_def InnerMap_init_def shard_wf_def)
  from Resize_shard_wf [OF live len GetNextPowerOfTwo_is_pow2, of E "(count im + 1) * 2"]
  obtain h2 im2 where r: "Resize E ?n (h, ?im1) = Some (h2, im2)"
     "shard_wf E h2 im2" "numBuckets im2 = ?n" "fillCapacity im2 = (?n * 7) div 8"
     "count im2 = count ?im1"
     "set (reachable_nodes im2) = set (reachable_nodes ?im1)"
     "\<forall>q. node_key h2 q = node_key h q \<and> node_value h2 q = node_value h q"
     "\<forall>q. q \<notin> set (reachable_nodes ?im1) \<longrightarrow> h2 q = h q"
     "\<forall>q \<in> set (reachable_nodes ?im1).
           q \<in> set (buckets im2 ! unat (new_index E ?n h q))
         \<and> node_bucket h2 q = Some (new_index E ?n h q)"
    by blast
  show ?thesis
    using True r by (intro exI [of _ h2] exI [of _ im2]) simp
qed

lemma Insert_present:
  fixes k :: "'k::linorder"
  assumes ok: "shard_ok E h im"
    and q: "q \<in> set (reachable_nodes im)" "node_key h q = Some k"
  shows "\<exists>h2 im2.
      InnerMap_Insert_Lockless E (Hash64 E k) k v (h, pool, im) = Some (nullptr, h2, pool, im2)
    \<and> (if fillCapacity im < count im + 1
       then Resize E (GetNextPowerOfTwo ((count im + 1) * 2)) (h, im\<lparr>count := count im + 1\<rparr>)
       else Some (h, im\<lparr>count := count im + 1\<rparr>)) = Some (h2, im2)
    \<and> shard_wf E h2 im2
    \<and> set (reachable_nodes im2) = set (reachable_nodes im)
    \<and> (\<forall>q. node_key h2 q = node_key h q \<and> node_value h2 q = node_value h q)
    \<and> (\<forall>q. q \<notin> set (reachable_nodes im) \<longrightarrow> h2 q = h q)
    \<and> count im2 = count im + 1"
proof -
  from Insert_prep [OF ok]
  obtain h2 im2 where p:
    "(if fillCapacity im < count im + 1
       then Resize E (GetNextPowerOfTwo ((count im + 1) * 2)) (h, im\<lparr>count := count im + 1\<rparr>)
       else Some (h, im\<lparr>count := count im + 1\<rparr>)) = Some (h2, im2)"
    "shard_wf E h2 im2"
    "set (reachable_nodes im2) = set (reachable_nodes im)"
    "\<forall>q. node_key h2 q = node_key h q \<and> node_value h2 q = node_value h q"
    "\<forall>q. q \<notin> set (reachable_nodes im) \<longrightarrow> h2 q = h q"
    "count im2 = count im + 1"
    by blast
  let ?b = "GetIndex (numBuckets im2) (Hash64 E k)"
  from InnerMap_Find_spec [OF p(2), of k]
  obtain r where r: "bucket_at (buckets im2) ?b = Some (buckets im2 ! unat ?b)"
    "Find_Unsafe h2 (buckets im2 ! unat ?b) k = Some r"
    "(r \<in> set (reachable_nodes im2) \<and> r \<noteq> nullptr \<and> node_key h2 r = Some k)
        \<or> (r = nullptr \<and> (\<forall>q \<in> set (reachable_nodes im2). node_key h2 q \<noteq> Some k))"
    by blast
  from r(3) q p(3,4) have rn: "r \<noteq> nullptr" by auto
  have "InnerMap_Insert_Lockless E (Hash64 E k) k v (h, pool, im) = Some (nullptr, h2, pool, im2)"
    unfolding InnerMap_Insert_Lockless_def using p(1) r(1,2) rn
    by (cases "fillCapacity im < count im + 1") (simp_all add: Let_def)
  with p show ?thesis by blast
qed

lemma Insert_absent:
  fixes k :: "'k::linorder"
  assumes ok: "shard_ok E h im"
    and absent: "\<forall>q \<in> set (reachable_nodes im). node_key h q \<noteq> Some k"
    and pool: "pool_ok E pool"
  shows "\<exists>h2 im2 p pool3 pi.
      InnerMap_Insert_Lockless E (Hash64 E k) k v (h, pool, im)
        = Some (p, h2(p \<mapsto> \<lparr>data = \<lparr>key = k, value = v,
                                     bucket = GetIndex (numBuckets im2) (Hash64 E k)\<rparr>,
                              pageIndex = pi\<rparr>),
                pool3,
                im2\<lparr>buckets := (buckets im2)[unat (GetIndex (numBuckets im2) (Hash64 E k))
                    := p # buckets im2 ! unat (GetIndex (numBuckets im2) (Hash64 E k))]\<rparr>)
    \<and> p \<noteq> nullptr
    \<and> Pool_count pool3 = Pool_count pool + 1
    \<and> (if fillCapacity im < count im + 1
       then Resize E (GetNextPowerOfTwo ((count im + 1) * 2)) (h, im\<lparr>count := count im + 1\<rparr>)
       else Some (h, im\<lparr>count := count im + 1\<rparr>)) = Some (h2, im2)
    \<and> shard_wf E h2 im2
    \<and> set (reachable_nodes im2) = set (reachable_nodes im)
    \<and> (\<forall>q. node_key h2 q = node_key h q \<and> node_value h2 q = node_value h q)
    \<and> (\<forall>q. q \<notin> set (reachable_nodes im) \<longrightarrow> h2 q = h q)
    \<and> count im2 = count im + 1"
proof -
  from Insert_prep [OF ok]
  obtain h2 im2 where p:
    "(if fillCapacity im < count im + 1
       then Resize E (GetNextPowerOfTwo ((count im + 1) * 2)) (h, im\<lparr>count := count im + 1\<rparr>)
       else Some (h, im\<lparr>count := count im + 1\<rparr>)) = Some (h2, im2)"
    "shard_wf E h2 im2"
    "set (reachable_nodes im2) = set (reachable_nodes im)"
    "\<forall>q. node_key h2 q = node_key h q \<and> node_value h2 q = node_value h q"
    "\<forall>q. q \<notin> set (reachable_nodes im) \<longrightarrow> h2 q = h q"
    "count im2 = count im + 1"
    by blast
  let ?b = "GetIndex (numBuckets im2) (Hash64 E k)"
  let ?obj = "\<lparr>key = k, value = v, bucket = c_invalidBucket\<rparr>"
  from InnerMap_Find_spec [OF p(2), of k]
  obtain r where r: "bucket_at (buckets im2) ?b = Some (buckets im2 ! unat ?b)"
    "Find_Unsafe h2 (buckets im2 ! unat ?b) k = Some r"
    "(r \<in> set (reachable_nodes im2) \<and> r \<noteq> nullptr \<and> node_key h2 r = Some k)
        \<or> (r = nullptr \<and> (\<forall>q \<in> set (reachable_nodes im2). node_key h2 q \<noteq> Some k))"
    by blast
  from r(3) absent p(3,4) have rn: "r = nullptr" by auto
  from pool obtain xs where xs: "free_list_inv pool xs" and po: "pages_ok pool"
    and al: "\<forall>n. NewAligned E n \<noteq> nullptr" and ps: "0 < PageSize_T E"
    and room: "length (pPageList pool) < unat c_MaxPages"
    by (auto simp: pool_ok_def)
  from PagingObjectPool_Reserve_returns [OF xs po al ps room, of ?obj h2]
  obtain pn pool3 pi where res:
    "PagingObjectPool_Reserve E ?obj (pool, h2)
       = Some (pn, pool3, h2(pn \<mapsto> \<lparr>data = ?obj, pageIndex = pi\<rparr>))"
    "pn \<noteq> nullptr" "Pool_count pool3 = Pool_count pool + 1"
    by blast
  have sb: "set_bucket pn ?b (h2(pn \<mapsto> \<lparr>data = ?obj, pageIndex = pi\<rparr>))
      = Some (h2(pn \<mapsto> \<lparr>data = \<lparr>key = k, value = v, bucket = ?b\<rparr>, pageIndex = pi\<rparr>))"
    using res(2) by (simp add: set_bucket_def)
  have "InnerMap_Insert_Lockless E (Hash64 E k) k v (h, pool, im)
        = Some (pn, h2(pn \<mapsto> \<lparr>data = \<lparr>key = k, value = v, bucket = ?b\<rparr>, pageIndex = pi\<rparr>),
                pool3,
                im2\<lparr>buckets := (buckets im2)[unat ?b := pn # buckets im2 ! unat ?b]\<rparr>)"
    unfolding InnerMap_Insert_Lockless_def using p(1) r(1,2) rn res(1,2) sb
    by (cases "fillCapacity im < count im + 1") (simp_all add: Let_def Insert_Unsafe_def)
  with p res(2,3) show ?thesis by blast
qed

subsection \<open>Lookup in the map\<close>

lemma ucast_take_bit_less:
  assumes "j < 32"
  shows "unat (ucast (hash AND mask j :: u64) :: u32) < 2 ^ j"
proof -
  have "unat (ucast (take_bit j hash) :: u32) = unat (take_bit j hash)" by (rule unat_ucast_take_bit [OF assms])
  with unat_take_bit_less [of j hash] show ?thesis by (simp only: take_bit_eq_mask)
qed

lemma GetInnerMapIndex_less:
  assumes "\<exists>j < 32. NumInnerMaps_T E = 2 ^ j"
  shows "unat (GetInnerMapIndex E hash) < NumInnerMaps_T E"
proof -
  from assms obtain j where j: "j < 32" "NumInnerMaps_T E = 2 ^ j" by blast
  have "c_innerMapIndexMask E = mask j"
    by (simp add: c_innerMapIndexMask_def j(2) mask_eq_exp_minus_1)
  then have "GetInnerMapIndex E hash = ucast (hash AND mask j)"
    by (simp only: GetInnerMapIndex_def)
  with ucast_take_bit_less [OF j(1), of hash] j(2) show ?thesis by simp
qed

lemma shard_wf_cong:
  assumes "\<forall>q. node_key h' q = node_key h q"
  shows "shard_wf E h' im = shard_wf E h im"
  using assms by (simp add: shard_wf_def)

lemma shard_ok_cong:
  assumes "\<forall>q. node_key h' q = node_key h q"
  shows "shard_ok E h' im = shard_ok E h im"
  using shard_wf_cong [OF assms] by (simp add: shard_ok_def)

lemma HashMap_init_wf:
  assumes "\<exists>j < 32. NumInnerMaps_T E = 2 ^ j"
  shows "map_wf E (HashMap_init E)"
  using assms by (simp add: map_wf_def HashMap_init_def shard_ok_def)

lemma map_wf_index:
  assumes "map_wf E hm"
  shows "unat (GetInnerMapIndex E hash) < length (innerMaps hm)"
  using assms GetInnerMapIndex_less [of E hash] by (simp add: map_wf_def)

lemma map_wf_shard:
  assumes "map_wf E hm"
  shows "shard_ok E (mem hm) (shard_of E hm k)"
  using assms map_wf_index [OF assms, of "Hash64 E k"] by (simp add: map_wf_def shard_of_def)

lemma HashMap_find_unfold:
  assumes "unat (GetInnerMapIndex E (Hash64 E k)) < length (innerMaps hm)"
  shows "HashMap_find E k hm =
     (case InnerMap_Find_Lockless (Hash64 E k) k (mem hm) (shard_of E hm k) of
        None \<Rightarrow> None
      | Some pPair \<Rightarrow>
          if pPair \<noteq> nullptr then
            (case mem hm pPair of
               None \<Rightarrow> None
             | Some n \<Rightarrow> Some (Some (value (data n))))
          else Some None)"
  using assms
  by (simp add: HashMap_find_def Find_Concurrent_def Find_Lockless_def innerMap_at_def
      shard_of_def Let_def)

lemma HashMap_find_init:
  assumes "unat (GetInnerMapIndex E (Hash64 E k)) < length (innerMaps hm)"
    and "shard_of E hm k = InnerMap_init"
  shows "HashMap_find E k hm = None"
  using assms
  by (simp add: HashMap_find_unfold InnerMap_Find_Lockless_def InnerMap_init_def bucket_at_def)

lemma HashMap_find_present:
  fixes k :: "'k::linorder"
  assumes idx: "unat (GetInnerMapIndex E (Hash64 E k)) < length (innerMaps hm)"
    and inv: "shard_wf E (mem hm) (shard_of E hm k)"
    and q: "q \<in> set (reachable_nodes (shard_of E hm k))" "node_key (mem hm) q = Some k"
  shows "\<exists>r n. r \<in> set (reachable_nodes (shard_of E hm k)) \<and> r \<noteq> nullptr
     \<and> mem hm r = Some n \<and> key (data n) = k
     \<and> Find_Lockless E k hm = Some r
     \<and> HashMap_find E k hm = Some (Some (value (data n)))"
proof -
  let ?im = "shard_of E hm k"
  from InnerMap_Find_spec [OF inv, of k]
  obtain r where r: "InnerMap_Find_Lockless (Hash64 E k) k (mem hm) ?im = Some r"
    "(r \<in> set (reachable_nodes ?im) \<and> r \<noteq> nullptr \<and> node_key (mem hm) r = Some k)
        \<or> (r = nullptr \<and> (\<forall>q \<in> set (reachable_nodes ?im). node_key (mem hm) q \<noteq> Some k))"
    by blast
  from r(2) q have rr: "r \<in> set (reachable_nodes ?im)" "r \<noteq> nullptr"
    "node_key (mem hm) r = Some k" by auto
  from rr(3) obtain n where n: "mem hm r = Some n" "key (data n) = k"
    by (auto simp: node_key_def)
  have "Find_Lockless E k hm = Some r"
    using idx r(1) by (simp add: Find_Lockless_def innerMap_at_def shard_of_def Let_def)
  moreover have "HashMap_find E k hm = Some (Some (value (data n)))"
    using r(1) rr(2) n by (simp add: HashMap_find_unfold [OF idx])
  ultimately show ?thesis using rr n by blast
qed

lemma HashMap_find_absent:
  fixes k :: "'k::linorder"
  assumes idx: "unat (GetInnerMapIndex E (Hash64 E k)) < length (innerMaps hm)"
    and inv: "shard_wf E (mem hm) (shard_of E hm k)"
    and q: "\<forall>q \<in> set (reachable_nodes (shard_of E hm k)). node_key (mem hm) q \<noteq> Some k"
  shows "HashMap_find E k hm = Some None \<and> Find_Lockless E k hm = Some nullptr"
proof -
  let ?im = "shard_of E hm k"
  from InnerMap_Find_spec [OF inv, of k]
  obtain r where r: "InnerMap_Find_Lockless (Hash64 E k) k (mem hm) ?im = Some r"
    "(r \<in> set (reachable_nodes ?im) \<and> r \<noteq> nullptr \<and> node_key (mem hm) r = Some k)
        \<or> (r = nullptr \<and> (\<forall>q \<in> set (reachable_nodes ?im). node_key (mem hm) q \<noteq> Some k))"
    by blast
  from r(2) q have "r = nullptr" by auto
  moreover have "Find_Lockless E k hm = Some r"
    using idx r(1) by (simp add: Find_Lockless_def innerMap_at_def shard_of_def Let_def)
  ultimately show ?thesis using r(1) by (simp add: HashMap_find_unfold [OF idx])
qed

lemma present_shard:
  fixes k :: "'k::linorder"
  assumes idx: "unat (GetInnerMapIndex E (Hash64 E k)) < length (innerMaps hm)"
    and inv: "shard_wf E (mem hm) (shard_of E hm k)"
  shows "present E hm k \<longleftrightarrow>
     (\<exists>q \<in> set (reachable_nodes (shard_of E hm k)). node_key (mem hm) q = Some k)"
proof (cases "\<exists>q \<in> set (reachable_nodes (shard_of E hm k)). node_key (mem hm) q = Some k")
  case True
  then obtain q where "q \<in> set (reachable_nodes (shard_of E hm k))"
    "node_key (mem hm) q = Some k" by blast
  from HashMap_find_present [OF idx inv this]
  show ?thesis using True by (auto simp: present_def)
next
  case False
  then have "\<forall>q \<in> set (reachable_nodes (shard_of E hm k)). node_key (mem hm) q \<noteq> Some k"
    by blast
  from HashMap_find_absent [OF idx inv this]
  show ?thesis using False by (simp add: present_def)
qed

lemma present_iff:
  fixes k :: "'k::linorder"
  assumes inv: "map_wf E hm"
  shows "present E hm k \<longleftrightarrow>
     shard_of E hm k \<noteq> InnerMap_init
   \<and> (\<exists>q \<in> set (reachable_nodes (shard_of E hm k)). node_key (mem hm) q = Some k)"
proof (cases "shard_of E hm k = InnerMap_init")
  case True
  then show ?thesis
    using HashMap_find_init [OF map_wf_index [OF inv]] by (simp add: present_def)
next
  case False
  with map_wf_shard [OF inv, of k] have "shard_wf E (mem hm) (shard_of E hm k)"
    by (simp add: shard_ok_def)
  from present_shard [OF map_wf_index [OF inv] this] False show ?thesis by simp
qed

lemma HashMap_insert_unfold:
  assumes "unat (GetInnerMapIndex E (Hash64 E k)) < length (innerMaps hm)"
    and "InnerMap_Insert_Lockless E (Hash64 E k) k v (mem hm, sharedPool hm, shard_of E hm k)
          = Some (p, h, pool, im')"
  shows "HashMap_insert E k v hm =
     Some (p \<noteq> nullptr,
           hm\<lparr>mem := h, sharedPool := pool,
              innerMaps := (innerMaps hm)[unat (GetInnerMapIndex E (Hash64 E k)) := im'],
              totalCount := (if p \<noteq> nullptr then totalCount hm + 1 else totalCount hm)\<rparr>)"
  using assms
  by (simp add: HashMap_insert_def Insert_Concurrent_def Insert_Lockless_def innerMap_at_def
      shard_of_def Let_def)

lemma insert_present_spec:
  fixes k :: "'k::linorder"
  assumes inv: "map_wf E hm" and pr: "present E hm k"
  shows "\<exists>hm'. HashMap_insert E k v' hm = Some (False, hm')
     \<and> map_wf E hm' \<and> present E hm' k
     \<and> totalCount hm' = totalCount hm \<and> sharedPool hm' = sharedPool hm
     \<and> set (reachable_nodes (shard_of E hm' k)) = set (reachable_nodes (shard_of E hm k))
     \<and> (\<forall>q. node_key (mem hm') q = node_key (mem hm) q
            \<and> node_value (mem hm') q = node_value (mem hm) q)"
proof -
  let ?i = "unat (GetInnerMapIndex E (Hash64 E k))"
  let ?im = "shard_of E hm k"
  have idx: "?i < length (innerMaps hm)" by (rule map_wf_index [OF inv])
  from pr present_iff [OF inv, of k] obtain q where
    q: "q \<in> set (reachable_nodes ?im)" "node_key (mem hm) q = Some k" by blast
  from Insert_present [OF map_wf_shard [OF inv] q, of v' "sharedPool hm"]
  obtain h2 im2 where ins:
    "InnerMap_Insert_Lockless E (Hash64 E k) k v' (mem hm, sharedPool hm, ?im)
       = Some (nullptr, h2, sharedPool hm, im2)"
    "shard_wf E h2 im2"
    "set (reachable_nodes im2) = set (reachable_nodes ?im)"
    "\<forall>q. node_key h2 q = node_key (mem hm) q \<and> node_value h2 q = node_value (mem hm) q"
    by blast
  define hm' where "hm' = hm\<lparr>mem := h2, sharedPool := sharedPool hm,
              innerMaps := (innerMaps hm)[?i := im2], totalCount := totalCount hm\<rparr>"
  have res: "HashMap_insert E k v' hm = Some (False, hm')"
    using HashMap_insert_unfold [OF idx ins(1)] by (simp add: hm'_def)
  have idx': "?i < length (innerMaps hm')" using idx by (simp add: hm'_def)
  have sh': "shard_of E hm' k = im2" using idx by (simp add: shard_of_def hm'_def)
  have m': "mem hm' = h2" by (simp add: hm'_def)
  have keys: "\<forall>q. node_key h2 q = node_key (mem hm) q" using ins(4) by simp
  have wf': "map_wf E hm'"
    unfolding map_wf_def
  proof (intro conjI allI impI)
    show "\<exists>j<32. NumInnerMaps_T E = 2 ^ j" using inv by (simp add: map_wf_def)
    show "length (innerMaps hm') = NumInnerMaps_T E" using inv by (simp add: map_wf_def hm'_def)
    fix i assume i: "i < length (innerMaps hm')"
    show "shard_ok E (mem hm') (innerMaps hm' ! i)"
    proof (cases "i = ?i")
      case True
      then show ?thesis using ins(2) idx by (simp add: hm'_def shard_ok_def)
    next
      case False
      then have "innerMaps hm' ! i = innerMaps hm ! i" by (simp add: hm'_def)
      moreover have "shard_ok E (mem hm) (innerMaps hm ! i)"
        using inv i by (simp add: map_wf_def hm'_def)
      ultimately show ?thesis using shard_ok_cong [OF keys] m' by simp
    qed
  qed
  have "present E hm' k"
    using present_shard [OF idx'] ins(2,3,4) q sh' m' by auto
  with res wf' ins(3,4) sh' m' show ?thesis
    by (intro exI [of _ hm']) (simp add: hm'_def)
qed

lemma insert_absent_spec:
  fixes k :: "'k::linorder"
  assumes inv: "map_wf E hm" and pr: "\<not> present E hm k" and pool: "pool_ok E (sharedPool hm)"
  shows "\<exists>hm'. HashMap_insert E k v hm = Some (True, hm')
     \<and> HashMap_find E k hm' = Some (Some v)
     \<and> totalCount hm' = totalCount hm + 1
     \<and> Pool_count (sharedPool hm') = Pool_count (sharedPool hm) + 1"
proof -
  let ?i = "unat (GetInnerMapIndex E (Hash64 E k))"
  let ?im = "shard_of E hm k"
  have idx: "?i < length (innerMaps hm)" by (rule map_wf_index [OF inv])
  have absent: "\<forall>q \<in> set (reachable_nodes ?im). node_key (mem hm) q \<noteq> Some k"
  proof (cases "?im = InnerMap_init")
    case True
    then show ?thesis by (simp add: reachable_nodes_def InnerMap_init_def)
  next
    case False
    with pr present_iff [OF inv, of k] show ?thesis by blast
  qed
  from Insert_absent [OF map_wf_shard [OF inv] absent pool, of v]
  obtain h2 im2 p pool3 pi where ins:
    "InnerMap_Insert_Lockless E (Hash64 E k) k v (mem hm, sharedPool hm, ?im)
        = Some (p, h2(p \<mapsto> \<lparr>data = \<lparr>key = k, value = v,
                                     bucket = GetIndex (numBuckets im2) (Hash64 E k)\<rparr>,
                              pageIndex = pi\<rparr>),
                pool3,
                im2\<lparr>buckets := (buckets im2)[unat (GetIndex (numBuckets im2) (Hash64 E k))
                    := p # buckets im2 ! unat (GetIndex (numBuckets im2) (Hash64 E k))]\<rparr>)"
    "p \<noteq> nullptr" "Pool_count pool3 = Pool_count (sharedPool hm) + 1"
    "shard_wf E h2 im2"
    by blast
  let ?b = "GetIndex (numBuckets im2) (Hash64 E k)"
  let ?h4 = "h2(p \<mapsto> \<lparr>data = \<lparr>key = k, value = v, bucket = ?b\<rparr>, pageIndex = pi\<rparr>)"
  let ?im3 = "im2\<lparr>buckets := (buckets im2)[unat ?b := p # buckets im2 ! unat ?b]\<rparr>"
  define hm' where "hm' = hm\<lparr>mem := ?h4, sharedPool := pool3,
              innerMaps := (innerMaps hm)[?i := ?im3], totalCount := totalCount hm + 1\<rparr>"
  have res: "HashMap_insert E k v hm = Some (True, hm')"
    using HashMap_insert_unfold [OF idx ins(1)] ins(2) by (simp add: hm'_def)
  have idx': "?i < length (innerMaps hm')" using idx by (simp add: hm'_def)
  have sh': "shard_of E hm' k = ?im3" using idx by (simp add: shard_of_def hm'_def)
  have m': "mem hm' = ?h4" by (simp add: hm'_def)
  have bl: "unat ?b < length (buckets im2)"
    using ins(4) GetIndex_less [of "numBuckets im2" "Hash64 E k"] by (simp add: shard_wf_def)
  have "InnerMap_Find_Lockless (Hash64 E k) k ?h4 ?im3 = Some p"
    using bl by (simp add: InnerMap_Find_Lockless_def bucket_at_def)
  then have "HashMap_find E k hm' = Some (Some v)"
    using ins(2) by (simp add: HashMap_find_unfold [OF idx'] sh' m')
  with res ins(3) show ?thesis by (intro exI [of _ hm']) (simp add: hm'_def)
qed

subsection \<open>Insertion\<close>

lemma PagingObjectPool_Reserve_not_null:
  assumes "PagingObjectPool_Reserve E obj s = Some y"
  shows "fst y \<noteq> nullptr"
  apply (rule PagingObjectPool_Reserve.raw_induct
      [where P = "\<lambda>E obj s y. fst y \<noteq> nullptr", OF _ assms])
  apply (auto split: option.splits prod.splits if_splits simp: Let_def)
  done

lemma all_less_4: "(\<forall>i < (4::nat). P i) \<longleftrightarrow> P 0 \<and> P 1 \<and> P 2 \<and> P 3"
proof -
  have "\<And>i. i < (4::nat) \<longleftrightarrow> i = 0 \<or> i = 1 \<or> i = 2 \<or> i = 3" by presburger
  then show ?thesis by auto
qed

lemma example_env_shards: "\<exists>j < 32. NumInnerMaps_T example_env = 2 ^ j"
  by (rule exI [of _ 2]) (simp add: example_env_def)

lemma example_empty_wf: "map_wf example_env example_empty"
  unfolding example_empty_def by (rule HashMap_init_wf [OF example_env_shards])

lemma example_pool_ok: "pool_ok example_env PagingObjectPool_init"
proof -
  have "free_list_inv PagingObjectPool_init []" by (rule init_free_list_inv)
  then have "\<exists>xs. free_list_inv PagingObjectPool_init xs" ..
  then show ?thesis
    by (simp add: pool_ok_def pages_ok_def PagingObjectPool_init_def example_env_def
        example_NewAligned_def nullptr_def c_MaxPages_def c_TailPageIndex_def)
qed

text \<open>\<open>example_two\<close> is what the two insertions leave, at the addresses of its nodes.\<close>

lemma example_two_reached:
  "map_option (map_view [4096, 4144])
     (run_operations example_env [Op_insert 1 10, Op_insert 5 50] example_empty)
   = Some (map_view [4096, 4144] example_two)"
  by code_simp

lemma example_two_shard: "shard_wf example_env (mem example_two) (innerMaps example_two ! 1)"
proof -
  have p: "is_pow2 4" unfolding is_pow2_def by (rule exI [of _ 2]) simp
  have g: "GetIndex 4 1 = 1" "GetIndex 4 5 = 1" by code_simp+
  show ?thesis
    using p g
    by (auto simp: shard_wf_def example_two_def example_env_def reachable_nodes_def
        less_Suc_eq node_key_def nullptr_def)
qed

lemma example_two_wf: "map_wf example_env example_two"
proof -
  have "length (innerMaps example_two) = 4" by (simp add: example_two_def)
  moreover have "innerMaps example_two ! 0 = InnerMap_init" "innerMaps example_two ! 2 = InnerMap_init"
    "innerMaps example_two ! 3 = InnerMap_init" by (simp_all add: example_two_def)
  ultimately show ?thesis
    using example_two_shard example_env_shards
    by (simp add: map_wf_def all_less_4 shard_ok_def example_env_def)
qed

lemma example_two_shard_of:
  "shard_of example_env example_two 1 = innerMaps example_two ! 1"
  "shard_of example_env example_two 5 = innerMaps example_two ! 1"
  "shard_of example_env example_two 9 = innerMaps example_two ! 1"
  unfolding shard_of_def by code_simp+

lemma example_two_nodes: "reachable_nodes (innerMaps example_two ! 1) = [4144, 4096]"
  by (simp add: example_two_def reachable_nodes_def)

lemma example_two_held_once: "held_once example_env example_two 1"
  unfolding held_once_def example_two_shard_of example_two_nodes
  by (simp add: example_two_def node_key_def)

text \<open>
  C7, as stated, fails. The claim: for every key already present, \<open>insert(k, v')\<close>
  returns false and leaves the value stored under \<open>k\<close> unchanged. On the constructed
  map, \<open>insert(1, 10)\<close>, \<open>insert(5, 50)\<close>, \<open>rekey(1, 5)\<close> and \<open>insert(5, 99)\<close> leave two
  nodes with the key 5 in one chain (the rekey writes the key 5 into the node of key
  1 and returns true; the insertion returns false), and \<open>find(5)\<close> gives 50. A further
  \<open>insert(5, 99)\<close> increments \<open>count\<close> above the fill capacity, so \<open>Resize\<close> relinks
  the chain in the opposite order before the key is looked up: the insertion returns
  false, and \<open>find(5)\<close> now gives 10.
\<close>

theorem insert_present_key_changes_value_counterexample:
  "Option.bind
     (run_operations example_env
        [Op_insert 1 10, Op_insert 5 50, Op_rekey 1 5, Op_insert 5 99] example_empty)
     (insert_observation example_env 5 99)
   = Some (Some (Some 50), False, Some (Some 10))"
  by code_simp

text \<open>
  C7, amended: in a well-formed map (\<open>map_wf\<close>), for every key \<open>k\<close> that is present
  (\<open>find(k)\<close> returns true with the value \<open>v\<close>) and is held by one node only
  (\<open>held_once\<close>), \<open>insert(k, v')\<close> returns false and leaves the value stored under
  \<open>k\<close> unchanged: a subsequent \<open>find(k)\<close> returns true with \<open>v\<close>. The map is then
  well formed and \<open>k\<close> is held by one node still. Keys are compared by a linear order.
\<close>

theorem insert_present_key_held_once:
  fixes k :: "'k::linorder"
  assumes "map_wf E hm" and "held_once E hm k" and "HashMap_find E k hm = Some (Some v)"
  shows "\<exists>hm'. HashMap_insert E k v' hm = Some (False, hm')
      \<and> HashMap_find E k hm' = Some (Some v)
      \<and> map_wf E hm' \<and> held_once E hm' k"
proof -
  from assms(3) have pr: "present E hm k" by (simp add: present_def)
  from insert_present_spec [OF assms(1) pr, of v'] obtain hm' where
    r: "HashMap_insert E k v' hm = Some (False, hm')" "map_wf E hm'" "present E hm' k"
      "set (reachable_nodes (shard_of E hm' k)) = set (reachable_nodes (shard_of E hm k))"
      "\<forall>q. node_key (mem hm') q = node_key (mem hm) q
            \<and> node_value (mem hm') q = node_value (mem hm) q"
    by blast
  from pr present_iff [OF assms(1), of k] obtain q where
    q: "q \<in> set (reachable_nodes (shard_of E hm k))" "node_key (mem hm) q = Some k"
    and ni: "shard_of E hm k \<noteq> InnerMap_init" by blast
  from ni map_wf_shard [OF assms(1), of k] have si: "shard_wf E (mem hm) (shard_of E hm k)"
    by (simp add: shard_ok_def)
  from r(3) present_iff [OF r(2), of k] have ni': "shard_of E hm' k \<noteq> InnerMap_init" by blast
  with map_wf_shard [OF r(2), of k] have si': "shard_wf E (mem hm') (shard_of E hm' k)"
    by (simp add: shard_ok_def)
  from HashMap_find_present [OF map_wf_index [OF assms(1)] si q] obtain a n where
    a: "a \<in> set (reachable_nodes (shard_of E hm k))" "mem hm a = Some n" "key (data n) = k"
      "HashMap_find E k hm = Some (Some (value (data n)))" by blast
  have q': "q \<in> set (reachable_nodes (shard_of E hm' k))" "node_key (mem hm') q = Some k"
    using q r(4,5) by simp_all
  from HashMap_find_present [OF map_wf_index [OF r(2)] si' q'] obtain a' n' where
    a': "a' \<in> set (reachable_nodes (shard_of E hm' k))" "mem hm' a' = Some n'"
      "key (data n') = k" "HashMap_find E k hm' = Some (Some (value (data n')))" by blast
  have "node_key (mem hm) a = Some k" using a by (simp add: node_key_def)
  moreover have "node_key (mem hm) a' = Some k"
  proof -
    have "node_key (mem hm') a' = Some k" using a' by (simp add: node_key_def)
    with r(5) show ?thesis by simp
  qed
  ultimately have "a' = a" using assms(2) a(1) a'(1) r(4) by (auto simp: held_once_def)
  moreover have "node_value (mem hm') a = node_value (mem hm) a" using r(5) by simp
  ultimately have "value (data n') = value (data n)" using a(2) a'(2) by (simp add: node_value_def)
  with a(4) a'(4) assms(3) have f: "HashMap_find E k hm' = Some (Some v)" by simp
  have "held_once E hm' k"
    using assms(2) r(4,5) by (simp add: held_once_def)
  with r(1,2) f show ?thesis by blast
qed

theorem insert_present_key_held_once_witness:
  "\<exists>hm'. HashMap_insert example_env 1 20 example_two = Some (False, hm')
      \<and> HashMap_find example_env 1 hm' = Some (Some 10)"
proof -
  have f: "HashMap_find example_env 1 example_two = Some (Some 10)" by code_simp
  from insert_present_key_held_once [OF example_two_wf example_two_held_once f, of 20]
  show ?thesis by blast
qed

text \<open>
  C3, as stated, fails. The claim: when the pool cannot provide a node,
  \<open>Pool.Reserve\<close> returns null and \<open>insert\<close> returns false with no change to the map.
  Here the allocator returns the null pointer for every page. \<open>Reserve\<close> on the
  constructed pool finds the free-page list empty and calls \<open>AllocateNewPage\<close>, which
  writes \<open>pNewPage->pageIndex\<close> through the null pointer before it tests \<open>pNewPage\<close>:
  \<open>Reserve\<close> returns nothing, and neither does \<open>insert(1, 10)\<close> on the constructed
  map.
\<close>

theorem Reserve_allocation_failure_counterexample:
  "PagingObjectPool_Reserve failing_env \<lparr>key = 1, value = 10, bucket = c_invalidBucket\<rparr>
      (sharedPool failing_empty, mem failing_empty) = None
   \<and> HashMap_insert failing_env 1 10 failing_empty = None"
proof -
  have "Option.is_none (PagingObjectPool_Reserve failing_env
      \<lparr>key = 1, value = 10, bucket = c_invalidBucket\<rparr>
      (sharedPool failing_empty, mem failing_empty))"
    by code_simp
  moreover have "Option.is_none (HashMap_insert failing_env 1 10 failing_empty)"
    by code_simp
  ultimately show ?thesis by (simp add: Option.is_none_def)
qed

text \<open>
  C3, amended: \<open>Pool.Reserve\<close> never returns null (its loop ends only with a node),
  and on a pool that satisfies \<open>pool_ok\<close> (a well-formed free-page list, allocated
  pages, fewer than \<open>c_MaxPages\<close> pages, an allocator that returns storage and pages of
  one slot at least) it returns. On a well-formed map (\<open>map_wf\<close>) with such a pool,
  \<open>insert(k, v)\<close> returns; it returns false exactly when the key is already present and
  true exactly when a new entry was created. After true, \<open>find(k)\<close> gives \<open>v\<close> and
  the size of the map and the count of the pool have grown by one; after false, the
  key is present still, and the size and the pool are as before. Nothing is said of
  an allocator that fails. Keys are compared by a linear order.
\<close>

theorem insert_false_iff_present:
  fixes k :: "'k::linorder" and s :: "PagingObjectPool \<times> 'a PoolNode heap"
  assumes "map_wf E hm" and "pool_ok E (sharedPool hm)"
  shows "(\<forall>p pool' h'. PagingObjectPool_Reserve E obj s = Some (p, pool', h') \<longrightarrow> p \<noteq> nullptr)
     \<and> (\<exists>p pool' h'. PagingObjectPool_Reserve E obj (sharedPool hm, h0) = Some (p, pool', h'))
     \<and> (\<exists>b hm'. HashMap_insert E k v hm = Some (b, hm')
          \<and> (b \<longleftrightarrow> \<not> present E hm k)
          \<and> (if b then HashMap_find E k hm' = Some (Some v)
                     \<and> totalCount hm' = totalCount hm + 1
                     \<and> Pool_count (sharedPool hm') = Pool_count (sharedPool hm) + 1
              else present E hm' k
                     \<and> totalCount hm' = totalCount hm
                     \<and> sharedPool hm' = sharedPool hm))"
proof (intro conjI)
  show "\<forall>p pool' h'. PagingObjectPool_Reserve E obj s = Some (p, pool', h') \<longrightarrow> p \<noteq> nullptr"
    using PagingObjectPool_Reserve_not_null [of E obj s] by auto
  from assms(2) obtain xs where xs: "free_list_inv (sharedPool hm) xs"
    and po: "pages_ok (sharedPool hm)"
    and al: "\<forall>n. NewAligned E n \<noteq> nullptr" and ps: "0 < PageSize_T E"
    and room: "length (pPageList (sharedPool hm)) < unat c_MaxPages"
    by (auto simp: pool_ok_def)
  from PagingObjectPool_Reserve_returns [OF xs po al ps room, of obj h0]
  show "\<exists>p pool' h'. PagingObjectPool_Reserve E obj (sharedPool hm, h0) = Some (p, pool', h')"
    by blast
  show "\<exists>b hm'. HashMap_insert E k v hm = Some (b, hm')
          \<and> (b \<longleftrightarrow> \<not> present E hm k)
          \<and> (if b then HashMap_find E k hm' = Some (Some v)
                     \<and> totalCount hm' = totalCount hm + 1
                     \<and> Pool_count (sharedPool hm') = Pool_count (sharedPool hm) + 1
              else present E hm' k
                     \<and> totalCount hm' = totalCount hm
                     \<and> sharedPool hm' = sharedPool hm)"
  proof (cases "present E hm k")
    case True
    from insert_present_spec [OF assms(1) True, of v] obtain hm' where
      "HashMap_insert E k v hm = Some (False, hm')" "present E hm' k"
      "totalCount hm' = totalCount hm" "sharedPool hm' = sharedPool hm" by blast
    with True show ?thesis by (intro exI [of _ False] exI [of _ hm']) simp
  next
    case False
    from insert_absent_spec [OF assms(1) False assms(2), of v] obtain hm' where
      "HashMap_insert E k v hm = Some (True, hm')"
      "HashMap_find E k hm' = Some (Some v)"
      "totalCount hm' = totalCount hm + 1"
      "Pool_count (sharedPool hm') = Pool_count (sharedPool hm) + 1" by blast
    with False show ?thesis by (intro exI [of _ True] exI [of _ hm']) simp
  qed
qed

theorem insert_false_iff_present_witness:
  "\<exists>hm'. HashMap_insert example_env 1 10 example_empty = Some (True, hm')
      \<and> HashMap_find example_env 1 hm' = Some (Some 10)
      \<and> totalCount hm' = 1"
proof -
  have np: "\<not> present example_env example_empty 1" by code_simp
  have pk: "pool_ok example_env (sharedPool example_empty)"
    using example_pool_ok by (simp add: example_empty_def HashMap_init_def)
  have t: "totalCount example_empty = 0" by (simp add: example_empty_def HashMap_init_def)
  from insert_false_iff_present [OF example_empty_wf pk,
      of "()" "(PagingObjectPool_init, Map.empty)" Map.empty 1 10] np t
  show ?thesis by auto
qed

subsection \<open>The resize policy\<close>

lemma unat_double_succ:
  assumes "2 * (unat (c :: u32) + 1) \<le> 2 ^ 31"
  shows "unat ((c + 1) * 2) = 2 * (unat c + 1)"
proof -
  have "unat (c + 1) = (unat c + unat (1 :: u32)) mod 2 ^ LENGTH(32)"
    by (rule unat_word_ariths(1))
  with assms have c1: "unat (c + 1) = unat c + 1" by simp
  have "unat ((c + 1) * 2) = unat (c + 1) * unat (2 :: u32) mod 2 ^ LENGTH(32)"
    by (rule unat_word_ariths(2))
  also have "\<dots> = 2 * (unat c + 1)" using assms c1 by simp
  finally show ?thesis .
qed

lemma unat_fill:
  assumes "unat (n :: u32) < 2 ^ 29"
  shows "unat ((n * 7) div 8) = (7 * unat n) div 8"
proof -
  have "unat (n * 7) = unat n * unat (7 :: u32) mod 2 ^ LENGTH(32)"
    by (rule unat_word_ariths(2))
  with assms have "unat (n * 7) = unat n * 7" by simp
  then show ?thesis by (simp add: unat_div mult.commute)
qed

lemma nth_update_cons_subset:
  assumes "i < length B"
  shows "set (B ! i) \<subseteq> set (B[b := p # B ! b] ! i)"
  using assms by (cases "i = b") auto

lemma Insert_spec:
  fixes k :: "'k::linorder"
  assumes ok: "shard_ok E h im" and pool: "pool_ok E pool"
  shows "\<exists>p h' pool' im' h2 im2.
      InnerMap_Insert_Lockless E (Hash64 E k) k v (h, pool, im) = Some (p, h', pool', im')
    \<and> (if fillCapacity im < count im + 1
       then Resize E (GetNextPowerOfTwo ((count im + 1) * 2)) (h, im\<lparr>count := count im + 1\<rparr>)
       else Some (h, im\<lparr>count := count im + 1\<rparr>)) = Some (h2, im2)
    \<and> numBuckets im' = numBuckets im2 \<and> fillCapacity im' = fillCapacity im2
    \<and> length (buckets im') = length (buckets im2)
    \<and> (\<forall>i < length (buckets im2). set (buckets im2 ! i) \<subseteq> set (buckets im' ! i))
    \<and> (\<forall>q. q \<noteq> p \<longrightarrow> h' q = h2 q)"
proof (cases "\<exists>q \<in> set (reachable_nodes im). node_key h q = Some k")
  case True
  then obtain q where "q \<in> set (reachable_nodes im)" "node_key h q = Some k" by blast
  from Insert_present [OF ok this, of v pool] show ?thesis by fastforce
next
  case False
  then have "\<forall>q \<in> set (reachable_nodes im). node_key h q \<noteq> Some k" by blast
  from Insert_absent [OF ok this pool, of v]
  obtain h2 im2 p pool3 pi where ins:
    "InnerMap_Insert_Lockless E (Hash64 E k) k v (h, pool, im)
        = Some (p, h2(p \<mapsto> \<lparr>data = \<lparr>key = k, value = v,
                                     bucket = GetIndex (numBuckets im2) (Hash64 E k)\<rparr>,
                              pageIndex = pi\<rparr>),
                pool3,
                im2\<lparr>buckets := (buckets im2)[unat (GetIndex (numBuckets im2) (Hash64 E k))
                    := p # buckets im2 ! unat (GetIndex (numBuckets im2) (Hash64 E k))]\<rparr>)"
    "(if fillCapacity im < count im + 1
       then Resize E (GetNextPowerOfTwo ((count im + 1) * 2)) (h, im\<lparr>count := count im + 1\<rparr>)
       else Some (h, im\<lparr>count := count im + 1\<rparr>)) = Some (h2, im2)"
    by blast
  show ?thesis
    apply (rule exI [of _ p])
    apply (rule exI [of _ "h2(p \<mapsto> \<lparr>data = \<lparr>key = k, value = v,
                                     bucket = GetIndex (numBuckets im2) (Hash64 E k)\<rparr>,
                              pageIndex = pi\<rparr>)"])
    apply (rule exI [of _ pool3])
    apply (rule exI [of _ "im2\<lparr>buckets := (buckets im2)[unat (GetIndex (numBuckets im2) (Hash64 E k))
                    := p # buckets im2 ! unat (GetIndex (numBuckets im2) (Hash64 E k))]\<rparr>"])
    apply (rule exI [of _ h2])
    apply (rule exI [of _ im2])
    using ins nth_update_cons_subset [of _ "buckets im2"]
    apply simp
    done
qed

lemma least_pow2_nat:
  assumes v: "v \<le> (0x80000000 :: u32)"
  shows "unat v \<le> unat (GetNextPowerOfTwo v)
     \<and> (\<forall>j. unat v \<le> 2 ^ j \<longrightarrow> unat (GetNextPowerOfTwo v) \<le> 2 ^ j)"
proof -
  from GetNextPowerOfTwo_least [OF v]
  have a: "v \<le> GetNextPowerOfTwo v"
    and b: "\<forall>m. is_pow2 m \<and> v \<le> m \<longrightarrow> GetNextPowerOfTwo v \<le> m" by blast+
  have "\<forall>j. unat v \<le> 2 ^ j \<longrightarrow> unat (GetNextPowerOfTwo v) \<le> 2 ^ j"
  proof (intro allI impI)
    fix j :: nat assume j: "unat v \<le> 2 ^ j"
    show "unat (GetNextPowerOfTwo v) \<le> 2 ^ j"
    proof (cases "j < 32")
      case True
      then have "is_pow2 (2 ^ j)" by (auto simp: is_pow2_def)
      moreover have "v \<le> 2 ^ j" using j True by (simp add: word_le_nat_alt unat_pow32)
      ultimately have "GetNextPowerOfTwo v \<le> 2 ^ j" using b by blast
      then show ?thesis using True by (simp add: word_le_nat_alt unat_pow32)
    next
      case False
      have "unat (GetNextPowerOfTwo v) < 2 ^ 32" using unsigned_less [of "GetNextPowerOfTwo v"] by simp
      also have "(2::nat) ^ 32 \<le> 2 ^ j" using False by (intro power_increasing) simp_all
      finally show ?thesis by simp
    qed
  qed
  with a show ?thesis by (simp add: word_le_nat_alt)
qed

lemma not_pow2_0: "\<not> is_pow2 0"
proof
  assume "is_pow2 0"
  then obtain j where j: "j < 32" "(0 :: u32) = 2 ^ j" unfolding is_pow2_def by blast
  from j(2) have "unat (2 ^ j :: u32) = unat (0 :: u32)" by (rule arg_cong [OF sym])
  then have "unat (2 ^ j :: u32) = 0" by simp
  with unat_pow32 [OF j(1)] show False by simp
qed

text \<open>
  C5, as stated, fails. The claim: the bucket array length is always a power of two,
  and a resize gives the next power of two above \<open>2 * (live + 1)\<close>. In the constructed
  map no shard has a bucket array: the length \<open>numBuckets\<close> is 0, which is not a power
  of two. The first insertion, \<open>insert(1, 10)\<close>, increments the count of shard 1 to
  1, above the fill capacity 0, and resizes to \<open>GetNextPowerOfTwo (2)\<close>, the first
  entry of the table that is at least 2: the new length is \<open>2 = 2 * (live + 1)\<close> and
  not a power of two above it. And the length is computed in 32-bit arithmetic: for
  the incremented count \<open>2 ^ 31\<close> the argument \<open>count * 2\<close> is 0 and the new length 1.
\<close>

theorem resize_length_counterexample:
  "bucket_counts example_empty = [0, 0, 0, 0]
   \<and> \<not> is_pow2 0
   \<and> map_option bucket_counts (run_operations example_env [Op_insert 1 10] example_empty)
       = Some [0, 2, 0, 0]
   \<and> GetNextPowerOfTwo ((0x7FFFFFFF + 1) * 2) = 1"
proof -
  have "bucket_counts example_empty = [0, 0, 0, 0]" by code_simp
  moreover have "map_option bucket_counts
      (run_operations example_env [Op_insert 1 10] example_empty) = Some [0, 2, 0, 0]"
    by code_simp
  moreover have "GetNextPowerOfTwo ((0x7FFFFFFF + 1) * 2) = 1" by code_simp
  ultimately show ?thesis using not_pow2_0 by simp
qed

text \<open>
  C5, amended: on a shard that is as constructed or well formed (\<open>shard_ok\<close>), with a
  pool that satisfies \<open>pool_ok\<close>, \<open>Insert_Lockless\<close> returns, and the shard it leaves
  has a bucket array whose length \<open>numBuckets\<close> is a power of two. When the
  incremented field \<open>count\<close> exceeds the field \<open>fillCapacity\<close>, the new length is
  \<open>GetNextPowerOfTwo ((count + 1) * 2)\<close> in 32-bit arithmetic, which is the least
  power of two that is at least \<open>2 * (count + 1)\<close> whenever \<open>2 * (count + 1)\<close> is at
  most \<open>2 ^ 31\<close>; the new fill capacity is \<open>(numBuckets * 7) / 8\<close> in 32-bit
  arithmetic, which is \<open>floor (7 * numBuckets / 8)\<close> below \<open>2 ^ 29\<close> buckets; and every
  node of the old array is in the chain of the bucket recomputed from the hash of its
  key, with that index in its field \<open>bucket\<close>. Otherwise the length and the fill
  capacity are unchanged. \<open>p\<close> is the node that the insertion returns. Nothing is
  said of the length when \<open>2 * (count + 1)\<close> is above \<open>2 ^ 31\<close>. Keys are compared by a
  linear order.
\<close>

theorem insert_resize_policy:
  fixes k :: "'k::linorder"
  assumes "shard_ok E h im" and "pool_ok E pool"
  shows "\<exists>p h' pool' im'.
      InnerMap_Insert_Lockless E (Hash64 E k) k v (h, pool, im) = Some (p, h', pool', im')
    \<and> is_pow2 (numBuckets im') \<and> length (buckets im') = unat (numBuckets im')
    \<and> (if fillCapacity im < count im + 1
        then numBuckets im' = GetNextPowerOfTwo ((count im + 1) * 2)
           \<and> (2 * (unat (count im) + 1) \<le> 2 ^ 31 \<longrightarrow>
                2 * (unat (count im) + 1) \<le> unat (numBuckets im')
              \<and> (\<forall>j. 2 * (unat (count im) + 1) \<le> 2 ^ j \<longrightarrow> unat (numBuckets im') \<le> 2 ^ j))
           \<and> fillCapacity im' = (numBuckets im' * 7) div 8
           \<and> (unat (numBuckets im') < 2 ^ 29 \<longrightarrow>
                unat (fillCapacity im') = (7 * unat (numBuckets im')) div 8)
           \<and> (\<forall>q \<in> set (reachable_nodes im).
                 q \<in> set (buckets im' ! unat (new_index E (numBuckets im') h q))
               \<and> (q \<noteq> p \<longrightarrow> node_bucket h' q = Some (new_index E (numBuckets im') h q)
                            \<and> node_key h' q = node_key h q))
        else numBuckets im' = numBuckets im \<and> fillCapacity im' = fillCapacity im)"
proof -
  let ?trig = "fillCapacity im < count im + 1"
  let ?v = "(count im + 1) * 2"
  from Insert_spec [OF assms, of k v]
  obtain p h' pool' im' h2 im2 where ins:
    "InnerMap_Insert_Lockless E (Hash64 E k) k v (h, pool, im) = Some (p, h', pool', im')"
    "(if ?trig
       then Resize E (GetNextPowerOfTwo ?v) (h, im\<lparr>count := count im + 1\<rparr>)
       else Some (h, im\<lparr>count := count im + 1\<rparr>)) = Some (h2, im2)"
    "numBuckets im' = numBuckets im2" "fillCapacity im' = fillCapacity im2"
    "length (buckets im') = length (buckets im2)"
    "\<forall>i < length (buckets im2). set (buckets im2 ! i) \<subseteq> set (buckets im' ! i)"
    "\<forall>q. q \<noteq> p \<longrightarrow> h' q = h2 q"
    by blast
  from Insert_prep [OF assms(1)] ins(2)
  have prep: "shard_wf E h2 im2"
    "\<forall>q. node_key h2 q = node_key h q \<and> node_value h2 q = node_value h q"
    "if ?trig
        then numBuckets im2 = GetNextPowerOfTwo ?v
           \<and> fillCapacity im2 = (numBuckets im2 * 7) div 8
           \<and> (\<forall>q \<in> set (reachable_nodes im).
                 q \<in> set (buckets im2 ! unat (new_index E (numBuckets im2) h q))
               \<and> node_bucket h2 q = Some (new_index E (numBuckets im2) h q))
        else numBuckets im2 = numBuckets im \<and> buckets im2 = buckets im \<and> h2 = h"
    by auto
  have p2: "is_pow2 (numBuckets im')" and len: "length (buckets im') = unat (numBuckets im')"
    using prep(1) ins(3,5) by (simp_all add: shard_wf_def)
  have main: "if ?trig
        then numBuckets im' = GetNextPowerOfTwo ?v
           \<and> (2 * (unat (count im) + 1) \<le> 2 ^ 31 \<longrightarrow>
                2 * (unat (count im) + 1) \<le> unat (numBuckets im')
              \<and> (\<forall>j. 2 * (unat (count im) + 1) \<le> 2 ^ j \<longrightarrow> unat (numBuckets im') \<le> 2 ^ j))
           \<and> fillCapacity im' = (numBuckets im' * 7) div 8
           \<and> (unat (numBuckets im') < 2 ^ 29 \<longrightarrow>
                unat (fillCapacity im') = (7 * unat (numBuckets im')) div 8)
           \<and> (\<forall>q \<in> set (reachable_nodes im).
                 q \<in> set (buckets im' ! unat (new_index E (numBuckets im') h q))
               \<and> (q \<noteq> p \<longrightarrow> node_bucket h' q = Some (new_index E (numBuckets im') h q)
                            \<and> node_key h' q = node_key h q))
        else numBuckets im' = numBuckets im \<and> fillCapacity im' = fillCapacity im"
  proof (cases ?trig)
    case False
    with prep(3) ins(2,3,4) show ?thesis by auto
  next
    case True
    from prep(3) have all3: "numBuckets im2 = GetNextPowerOfTwo ?v
           \<and> fillCapacity im2 = (numBuckets im2 * 7) div 8
           \<and> (\<forall>q \<in> set (reachable_nodes im).
                 q \<in> set (buckets im2 ! unat (new_index E (numBuckets im2) h q))
               \<and> node_bucket h2 q = Some (new_index E (numBuckets im2) h q))"
      unfolding if_P [OF True] .
    then have nb: "numBuckets im2 = GetNextPowerOfTwo ?v"
      and fc: "fillCapacity im2 = (numBuckets im2 * 7) div 8"
      and nodes: "\<forall>q \<in> set (reachable_nodes im).
                 q \<in> set (buckets im2 ! unat (new_index E (numBuckets im2) h q))
               \<and> node_bucket h2 q = Some (new_index E (numBuckets im2) h q)"
      by blast+
    have least: "2 * (unat (count im) + 1) \<le> 2 ^ 31 \<longrightarrow>
                2 * (unat (count im) + 1) \<le> unat (numBuckets im')
              \<and> (\<forall>j. 2 * (unat (count im) + 1) \<le> 2 ^ j \<longrightarrow> unat (numBuckets im') \<le> 2 ^ j)"
    proof
      assume b: "2 * (unat (count im) + 1) \<le> 2 ^ 31"
      have u: "unat ?v = 2 * (unat (count im) + 1)" by (rule unat_double_succ [OF b])
      with b have "?v \<le> 0x80000000" by (simp add: word_le_nat_alt)
      from least_pow2_nat [OF this] u nb ins(3)
      show "2 * (unat (count im) + 1) \<le> unat (numBuckets im')
              \<and> (\<forall>j. 2 * (unat (count im) + 1) \<le> 2 ^ j \<longrightarrow> unat (numBuckets im') \<le> 2 ^ j)"
        by simp
    qed
    have fill: "unat (numBuckets im') < 2 ^ 29 \<longrightarrow>
                unat (fillCapacity im') = (7 * unat (numBuckets im')) div 8"
      using unat_fill [of "numBuckets im'"] fc ins(3,4) by simp
    have relinked: "\<forall>q \<in> set (reachable_nodes im).
                 q \<in> set (buckets im' ! unat (new_index E (numBuckets im') h q))
               \<and> (q \<noteq> p \<longrightarrow> node_bucket h' q = Some (new_index E (numBuckets im') h q)
                            \<and> node_key h' q = node_key h q)"
    proof
      fix q assume q: "q \<in> set (reachable_nodes im)"
      let ?i = "unat (new_index E (numBuckets im2) h q)"
      have "?i < unat (numBuckets im2)"
        using GetIndex_less [of "numBuckets im2"] prep(1)
        by (simp add: new_index_def shard_wf_def)
      then have il: "?i < length (buckets im2)" using prep(1) by (simp add: shard_wf_def)
      from nodes q have "q \<in> set (buckets im2 ! ?i)"
        and nbk: "node_bucket h2 q = Some (new_index E (numBuckets im2) h q)" by auto
      with ins(6) il have m: "q \<in> set (buckets im' ! ?i)" by blast
      have "q \<noteq> p \<longrightarrow> node_bucket h' q = Some (new_index E (numBuckets im2) h q)
                            \<and> node_key h' q = node_key h q"
        using ins(7) nbk prep(2) by (auto simp: node_bucket_def node_key_def)
      with m show "q \<in> set (buckets im' ! unat (new_index E (numBuckets im') h q))
               \<and> (q \<noteq> p \<longrightarrow> node_bucket h' q = Some (new_index E (numBuckets im') h q)
                            \<and> node_key h' q = node_key h q)"
        using ins(3) by simp
    qed
    show ?thesis using True nb fc ins(3,4) least fill relinked by simp
  qed
  show ?thesis
    using ins(1) p2 len main by blast
qed

text \<open>\<open>example_at_capacity\<close> is what the three insertions leave.\<close>

lemma example_at_capacity_reached:
  "map_option (map_view [4096, 4144])
     (run_operations example_env [Op_insert 1 10, Op_insert 5 50, Op_insert 1 20] example_empty)
   = Some (map_view [4096, 4144] example_at_capacity)"
  by code_simp

lemma example_two_pool_ok: "pool_ok example_env (sharedPool example_two)"
proof -
  have "free_list_inv (sharedPool example_two) [0]"
    by (simp add: free_list_inv_def example_two_def headPageIndex_def headNextIndex_def
      packHead_def c_MaxPages_def
      c_TailPageIndex_def c_InvalidPageIndex_def c_headPageIndexMask_def
      c_headNextIndexMask_def c_bitIndexHeadPageIndex_def c_bitIndexHeadNextIndex_def
      c_bitIndexHeadCounter_def)
  then have "\<exists>xs. free_list_inv (sharedPool example_two) xs" ..
  then show ?thesis
    by (simp add: pool_ok_def pages_ok_def example_two_def example_env_def
        example_NewAligned_def nullptr_def c_MaxPages_def c_TailPageIndex_def)
qed

theorem insert_resize_policy_witness:
  "\<exists>p h' pool' im'.
      InnerMap_Insert_Lockless example_env (Hash64 example_env 9) 9 90
        (mem example_at_capacity, sharedPool example_at_capacity, example_shard_at_capacity)
        = Some (p, h', pool', im')
    \<and> numBuckets im' = 8 \<and> fillCapacity im' = 7
    \<and> 4096 \<in> set (buckets im' ! 1) \<and> 4144 \<in> set (buckets im' ! 5)"
proof -
  have m: "mem example_at_capacity = mem example_two"
    "sharedPool example_at_capacity = sharedPool example_two"
    by (simp_all add: example_at_capacity_def)
  have p: "is_pow2 4" unfolding is_pow2_def by (rule exI [of _ 2]) simp
  have g: "GetIndex 4 1 = 1" "GetIndex 4 5 = 1" by code_simp+
  have "shard_wf example_env (mem example_two) example_shard_at_capacity"
    using p g
    by (auto simp: shard_wf_def example_two_def example_shard_at_capacity_def example_env_def
        reachable_nodes_def less_Suc_eq node_key_def nullptr_def)
  then have ok: "shard_ok example_env (mem example_at_capacity) example_shard_at_capacity"
    by (simp add: shard_ok_def m)
  have pk: "pool_ok example_env (sharedPool example_at_capacity)"
    using example_two_pool_ok by (simp add: m)
  have t: "fillCapacity example_shard_at_capacity < count example_shard_at_capacity + 1"
    "GetNextPowerOfTwo ((count example_shard_at_capacity + 1) * 2) = 8"
    "(8 * 7 :: u32) div 8 = 7"
    by code_simp+
  have n: "reachable_nodes example_shard_at_capacity = [4144, 4096]"
    by (simp add: example_shard_at_capacity_def reachable_nodes_def)
  have i: "unat (new_index example_env 8 (mem example_two) 4096) = 1"
    "unat (new_index example_env 8 (mem example_two) 4144) = 5"
    by code_simp+
  from insert_resize_policy [OF ok pk, of 9 90] t n i m
  show ?thesis by fastforce
qed

subsection \<open>Rekey inside a shard\<close>

lemma node_in_its_bucket:
  assumes inv: "shard_wf E h im"
    and q: "q \<in> set (reachable_nodes im)" "node_key h q = Some k"
  shows "q \<in> set (buckets im ! unat (GetIndex (numBuckets im) (Hash64 E k)))"
proof -
  from q(1) obtain b where b: "b < length (buckets im)" "q \<in> set (buckets im ! b)"
    unfolding reachable_nodes_iff by blast
  from inv have "\<forall>b < length (buckets im). \<forall>q \<in> set (buckets im ! b). q \<noteq> nullptr
       \<and> (\<exists>k. node_key h q = Some k \<and> unat (GetIndex (numBuckets im) (Hash64 E k)) = b)"
    by (simp add: shard_wf_def)
  with b q(2) have "unat (GetIndex (numBuckets im) (Hash64 E k)) = b" by fastforce
  with b(2) show ?thesis by simp
qed

lemma chain_subset_nodes:
  assumes "b < length (buckets im)"
  shows "set (buckets im ! b) \<subseteq> set (reachable_nodes im)"
  using assms reachable_nodes_iff by blast

lemma relinked_chains:
  fixes B :: "chain list"
  assumes ob: "ob < length B" and nb: "nb < length B" and ne: "ob \<noteq> nb"
    and sub: "\<forall>b < length B. set (B ! b) \<subseteq> N" and c': "set c' \<subseteq> set (B ! ob)" and p: "p \<in> N"
  shows "\<forall>b < length B. set (B[ob := c', nb := p # B[ob := c'] ! nb] ! b) \<subseteq> N"
    and "p \<in> set (B[ob := c', nb := p # B[ob := c'] ! nb] ! nb)"
proof -
  show "p \<in> set (B[ob := c', nb := p # B[ob := c'] ! nb] ! nb)" using nb by simp
  show "\<forall>b < length B. set (B[ob := c', nb := p # B[ob := c'] ! nb] ! b) \<subseteq> N"
  proof (intro allI impI)
    fix b assume b: "b < length B"
    consider "b = nb" | "b = ob" "b \<noteq> nb" | "b \<noteq> ob" "b \<noteq> nb" by blast
    then show "set (B[ob := c', nb := p # B[ob := c'] ! nb] ! b) \<subseteq> N"
    proof cases
      case 1
      then show ?thesis using nb ne sub p by (auto simp: nth_list_update)
    next
      case 2
      then show ?thesis using ob sub c' by (auto simp: nth_list_update)
    next
      case 3
      then show ?thesis using b sub by (auto simp: nth_list_update)
    qed
  qed
qed

lemma rekey_common:
  fixes k :: "'k::linorder"
  assumes inv: "shard_wf E h im"
    and q: "pNode \<in> set (reachable_nodes im)" "h pNode = Some n" "key (data n) = k"
    and bf: "bucket (data n) = GetIndex (numBuckets im) (Hash64 E k)"
  shows "pNode \<noteq> nullptr"
    and "bucket (data n) < numBuckets im"
    and "unat (GetIndex (numBuckets im) hash) < length (buckets im)"
    and "pNode \<in> set (buckets im ! unat (GetIndex (numBuckets im) (Hash64 E k)))"
    and "\<And>b. \<exists>r c'. Erase_Unsafe (h(pNode \<mapsto> n\<lparr>data := (data n)\<lparr>bucket := b\<rparr>\<rparr>))
             (buckets im ! unat (GetIndex (numBuckets im) (Hash64 E k))) k = Some (r, c')
           \<and> r \<noteq> nullptr
           \<and> set c' \<subseteq> set (buckets im ! unat (GetIndex (numBuckets im) (Hash64 E k)))"
proof -
  let ?ob = "GetIndex (numBuckets im) (Hash64 E k)"
  let ?c = "buckets im ! unat ?ob"
  from inv have p2: "is_pow2 (numBuckets im)" and len: "length (buckets im) = unat (numBuckets im)"
    by (simp_all add: shard_wf_def)
  show nn: "pNode \<noteq> nullptr" using shard_wf_live [OF inv] q(1) by blast
  show "bucket (data n) < numBuckets im"
    using GetIndex_less [OF p2, of "Hash64 E k"] bf by (simp add: word_less_nat_alt)
  show "unat (GetIndex (numBuckets im) hash) < length (buckets im)"
    using GetIndex_less [OF p2, of hash] len by simp
  have nk: "node_key h pNode = Some k" using q by (simp add: node_key_def)
  show pc: "pNode \<in> set ?c" by (rule node_in_its_bucket [OF inv q(1) nk])
  fix b
  let ?h1 = "h(pNode \<mapsto> n\<lparr>data := (data n)\<lparr>bucket := b\<rparr>\<rparr>)"
  have obl: "unat ?ob < length (buckets im)" using GetIndex_less [OF p2, of "Hash64 E k"] len by simp
  have live: "\<forall>q \<in> set ?c. ?h1 q \<noteq> None"
    using shard_wf_live [OF inv] chain_subset_nodes [OF obl] by auto
  from Erase_Unsafe_spec [OF live, of k]
  obtain r c' where e: "Erase_Unsafe ?h1 ?c k = Some (r, c')"
    "(r \<in> set ?c \<and> node_key ?h1 r = Some k \<and> set c' \<subseteq> set ?c \<and> set ?c \<subseteq> insert r (set c'))
         \<or> (r = nullptr \<and> c' = ?c \<and> (\<forall>q \<in> set ?c. node_key ?h1 q \<noteq> Some k))"
    by blast
  have "node_key ?h1 pNode = Some k" using q by (simp add: node_key_def)
  with pc e(2) have "r \<in> set ?c \<and> set c' \<subseteq> set ?c" by blast
  moreover have "nullptr \<notin> set ?c"
    using shard_wf_live [OF inv] chain_subset_nodes [OF obl] by blast
  ultimately have "r \<noteq> nullptr \<and> set c' \<subseteq> set ?c" by blast
  with e(1) show "\<exists>r c'. Erase_Unsafe ?h1 ?c k = Some (r, c') \<and> r \<noteq> nullptr \<and> set c' \<subseteq> set ?c"
    by blast
qed

lemma InnerMap_ReKey_Concurrent_spec:
  fixes k k' :: "'k::linorder"
  assumes inv: "shard_wf E h im"
    and q: "pNode \<in> set (reachable_nodes im)" "h pNode = Some n" "key (data n) = k"
    and bf: "bucket (data n) = GetIndex (numBuckets im) (Hash64 E k)"
  shows "\<exists>B'. InnerMap_ReKey_Concurrent (Hash64 E k) (Hash64 E k') pNode k' (h, im)
        = Some (True,
            h(pNode \<mapsto> n\<lparr>data := (data n)\<lparr>key := k',
                                    bucket := GetIndex (numBuckets im) (Hash64 E k')\<rparr>\<rparr>),
            im\<lparr>buckets := B'\<rparr>)
     \<and> length B' = length (buckets im)
     \<and> (\<forall>b < length B'. set (B' ! b) \<subseteq> set (reachable_nodes im))
     \<and> pNode \<in> set (B' ! unat (GetIndex (numBuckets im) (Hash64 E k')))"
proof -
  let ?ob = "GetIndex (numBuckets im) (Hash64 E k)"
  let ?nb = "GetIndex (numBuckets im) (Hash64 E k')"
  let ?c = "buckets im ! unat ?ob"
  let ?h1 = "h(pNode \<mapsto> n\<lparr>data := (data n)\<lparr>bucket := c_reassigningBucket\<rparr>\<rparr>)"
  let ?h3 = "h(pNode \<mapsto> n\<lparr>data := (data n)\<lparr>key := k', bucket := ?nb\<rparr>\<rparr>)"
  note c = rekey_common [OF inv q bf]
  have obl: "unat ?ob < length (buckets im)" and nbl: "unat ?nb < length (buckets im)"
    using c(3) by blast+
  have sb: "set_bucket pNode c_reassigningBucket h = Some ?h1"
    using c(1) q(2) by (simp add: set_bucket_def)
  show ?thesis
  proof (cases "?ob = ?nb")
    case True
    have "InnerMap_ReKey_Concurrent (Hash64 E k) (Hash64 E k') pNode k' (h, im)
        = Some (True, ?h3, im\<lparr>buckets := buckets im\<rparr>)"
      using True q(2) bf c(1,2) sb
      by (simp add: InnerMap_ReKey_Concurrent_def Let_def ForceChangeKey_def set_bucket_def)
    moreover have "pNode \<in> set (buckets im ! unat ?nb)" using c(4) True by simp
    moreover have "\<forall>b < length (buckets im). set (buckets im ! b) \<subseteq> set (reachable_nodes im)"
      using chain_subset_nodes by blast
    ultimately show ?thesis by blast
  next
    case False
    then have une: "unat ?ob \<noteq> unat ?nb" using word_unat_eq_iff by blast
    from c(5) [of c_reassigningBucket] obtain r c' where
      e: "Erase_Unsafe ?h1 ?c k = Some (r, c')" "r \<noteq> nullptr" "set c' \<subseteq> set ?c" by blast
    let ?B1 = "(buckets im)[unat ?ob := c']"
    let ?B' = "?B1[unat ?nb := pNode # ?B1 ! unat ?nb]"
    have "InnerMap_ReKey_Concurrent (Hash64 E k) (Hash64 E k') pNode k' (h, im)
        = Some (True, ?h3, im\<lparr>buckets := ?B'\<rparr>)"
      using False q(2,3) bf c(1,2) sb e(1,2) obl nbl
      by (simp add: InnerMap_ReKey_Concurrent_def Let_def ForceChangeKey_def set_bucket_def
          bucket_at_def Insert_Unsafe_def)
    moreover have "length ?B' = length (buckets im)" by simp
    moreover have "\<forall>b < length (buckets im). set (?B' ! b) \<subseteq> set (reachable_nodes im)"
      and "pNode \<in> set (?B' ! unat ?nb)"
      using relinked_chains [OF obl nbl une _ e(3) q(1)] chain_subset_nodes by blast+
    ultimately show ?thesis by (intro exI [of _ ?B']) simp
  qed
qed

lemma InnerMap_ReKey_Lockless_spec:
  fixes k k' :: "'k::linorder"
  assumes inv: "shard_wf E h im"
    and q: "pNode \<in> set (reachable_nodes im)" "h pNode = Some n" "key (data n) = k"
    and bf: "bucket (data n) = GetIndex (numBuckets im) (Hash64 E k)"
  shows "\<exists>B'. InnerMap_ReKey_Lockless (Hash64 E k) (Hash64 E k') pNode k' (h, im)
        = Some (True,
            h(pNode \<mapsto> n\<lparr>data := (data n)\<lparr>key := k',
                                    bucket := GetIndex (numBuckets im) (Hash64 E k')\<rparr>\<rparr>),
            im\<lparr>buckets := B'\<rparr>)
     \<and> length B' = length (buckets im)
     \<and> (\<forall>b < length B'. set (B' ! b) \<subseteq> set (reachable_nodes im))
     \<and> pNode \<in> set (B' ! unat (GetIndex (numBuckets im) (Hash64 E k')))"
proof -
  let ?ob = "GetIndex (numBuckets im) (Hash64 E k)"
  let ?nb = "GetIndex (numBuckets im) (Hash64 E k')"
  let ?c = "buckets im ! unat ?ob"
  let ?h1 = "h(pNode \<mapsto> n\<lparr>data := (data n)\<lparr>bucket := c_reassigningBucket\<rparr>\<rparr>)"
  let ?h3 = "h(pNode \<mapsto> n\<lparr>data := (data n)\<lparr>key := k', bucket := ?nb\<rparr>\<rparr>)"
  note c = rekey_common [OF inv q bf]
  have obl: "unat ?ob < length (buckets im)" and nbl: "unat ?nb < length (buckets im)"
    using c(3) by blast+
  have sb: "set_bucket pNode c_reassigningBucket h = Some ?h1"
    using c(1) q(2) by (simp add: set_bucket_def)
  show ?thesis
  proof (cases "?ob = ?nb")
    case True
    have r1: "(data n)\<lparr>key := k'\<rparr> = (data n)\<lparr>key := k', bucket := ?nb\<rparr>"
      using bf True by (cases "data n") simp
    have r0: "InnerMap_ReKey_Lockless (Hash64 E k) (Hash64 E k') pNode k' (h, im)
        = Some (True, h(pNode \<mapsto> n\<lparr>data := (data n)\<lparr>key := k'\<rparr>\<rparr>), im\<lparr>buckets := buckets im\<rparr>)"
      using True q(2) bf c(1,2)
      by (simp add: InnerMap_ReKey_Lockless_def Let_def ForceChangeKey_def)
    have "InnerMap_ReKey_Lockless (Hash64 E k) (Hash64 E k') pNode k' (h, im)
        = Some (True, ?h3, im\<lparr>buckets := buckets im\<rparr>)"
      by (subst r1 [symmetric]) (rule r0)
    moreover have "pNode \<in> set (buckets im ! unat ?nb)" using c(4) True by simp
    moreover have "\<forall>b < length (buckets im). set (buckets im ! b) \<subseteq> set (reachable_nodes im)"
      using chain_subset_nodes by blast
    ultimately show ?thesis by blast
  next
    case False
    then have une: "unat ?ob \<noteq> unat ?nb" using word_unat_eq_iff by blast
    from c(5) [of c_reassigningBucket] obtain r c' where
      e: "Erase_Unsafe ?h1 ?c k = Some (r, c')" "r \<noteq> nullptr" "set c' \<subseteq> set ?c" by blast
    let ?B1 = "(buckets im)[unat ?ob := c']"
    let ?B' = "?B1[unat ?nb := pNode # ?B1 ! unat ?nb]"
    have "InnerMap_ReKey_Lockless (Hash64 E k) (Hash64 E k') pNode k' (h, im)
        = Some (True, ?h3, im\<lparr>buckets := ?B'\<rparr>)"
      using False q(2,3) bf c(1,2) sb e(1,2) obl nbl
      by (simp add: InnerMap_ReKey_Lockless_def Let_def ForceChangeKey_def set_bucket_def
          bucket_at_def Insert_Unsafe_def)
    moreover have "length ?B' = length (buckets im)" by simp
    moreover have "\<forall>b < length (buckets im). set (?B' ! b) \<subseteq> set (reachable_nodes im)"
      and "pNode \<in> set (?B' ! unat ?nb)"
      using relinked_chains [OF obl nbl une _ e(3) q(1)] chain_subset_nodes by blast+
    ultimately show ?thesis by (intro exI [of _ ?B']) simp
  qed
qed

lemma rekey_result_finds:
  fixes k k' :: "'k::linorder"
  assumes inv: "shard_wf E h im"
    and q: "pNode \<in> set (reachable_nodes im)" "h pNode = Some n" "key (data n) = k"
    and ne: "k \<noteq> k'"
    and B': "length B' = length (buckets im)"
      "\<forall>b < length B'. set (B' ! b) \<subseteq> set (reachable_nodes im)"
      "pNode \<in> set (B' ! unat (GetIndex (numBuckets im) (Hash64 E k')))"
    and h': "h' = h(pNode \<mapsto> n\<lparr>data := (data n)\<lparr>key := k', bucket := nbk\<rparr>\<rparr>)"
  shows "\<forall>q \<in> set (reachable_nodes im). node_key h q \<noteq> Some k'
      \<Longrightarrow> InnerMap_Find_Lockless (Hash64 E k') k' h' (im\<lparr>buckets := B'\<rparr>) = Some pNode"
    and "\<forall>q \<in> set (reachable_nodes im). node_key h q = Some k \<longrightarrow> q = pNode
      \<Longrightarrow> InnerMap_Find_Lockless (Hash64 E k) k h' (im\<lparr>buckets := B'\<rparr>) = Some nullptr"
proof -
  from inv have p2: "is_pow2 (numBuckets im)" and len: "length (buckets im) = unat (numBuckets im)"
    by (simp_all add: shard_wf_def)
  have idx: "\<And>hash. unat (GetIndex (numBuckets im) hash) < length B'"
    using GetIndex_less [OF p2] len B'(1) by simp
  have live: "\<And>b. b < length B' \<Longrightarrow> \<forall>q \<in> set (B' ! b). h' q \<noteq> None"
    using shard_wf_live [OF inv] B'(2) h' by auto
  have keys: "\<And>r. r \<noteq> pNode \<Longrightarrow> node_key h' r = node_key h r"
    using h' by (simp add: node_key_def)
  have kp: "node_key h' pNode = Some k'" using h' by (simp add: node_key_def)
  let ?cn = "B' ! unat (GetIndex (numBuckets im) (Hash64 E k'))"
  let ?co = "B' ! unat (GetIndex (numBuckets im) (Hash64 E k))"
  {
    assume absent: "\<forall>q \<in> set (reachable_nodes im). node_key h q \<noteq> Some k'"
    from Find_Unsafe_spec [OF live [OF idx], of "Hash64 E k'" k']
    obtain r where r: "Find_Unsafe h' ?cn k' = Some r"
      "(r \<in> set ?cn \<and> node_key h' r = Some k')
         \<or> (r = nullptr \<and> (\<forall>q \<in> set ?cn. node_key h' q \<noteq> Some k'))"
      by blast
    from r(2) B'(3) kp have rc: "r \<in> set ?cn" "node_key h' r = Some k'" by blast+
    have "r = pNode"
    proof (rule ccontr)
      assume "r \<noteq> pNode"
      with rc keys have "node_key h r = Some k'" by simp
      moreover have "r \<in> set (reachable_nodes im)" using rc(1) B'(2) idx by blast
      ultimately show False using absent by blast
    qed
    with r(1) show "InnerMap_Find_Lockless (Hash64 E k') k' h' (im\<lparr>buckets := B'\<rparr>) = Some pNode"
      using idx by (simp add: InnerMap_Find_Lockless_def bucket_at_def)
  }
  {
    assume once: "\<forall>q \<in> set (reachable_nodes im). node_key h q = Some k \<longrightarrow> q = pNode"
    from Find_Unsafe_spec [OF live [OF idx], of "Hash64 E k" k]
    obtain s where s: "Find_Unsafe h' ?co k = Some s"
      "(s \<in> set ?co \<and> node_key h' s = Some k)
         \<or> (s = nullptr \<and> (\<forall>q \<in> set ?co. node_key h' q \<noteq> Some k))"
      by blast
    have "\<not> (s \<in> set ?co \<and> node_key h' s = Some k)"
    proof
      assume a: "s \<in> set ?co \<and> node_key h' s = Some k"
      with kp ne have sp: "s \<noteq> pNode" by auto
      with a keys have "node_key h s = Some k" by simp
      moreover have "s \<in> set (reachable_nodes im)" using a B'(2) idx by blast
      ultimately have "s = pNode" using once by blast
      with sp show False by simp
    qed
    with s(2) have "s = nullptr" by blast
    with s(1) show "InnerMap_Find_Lockless (Hash64 E k) k h' (im\<lparr>buckets := B'\<rparr>) = Some nullptr"
      using idx by (simp add: InnerMap_Find_Lockless_def bucket_at_def)
  }
qed

lemma rekey_absent_spec:
  fixes k k' :: "'k::linorder"
  assumes inv: "map_wf E hm" and alloc: "shard_of E hm k \<noteq> InnerMap_init"
    and np: "\<not> present E hm k"
  shows "HashMap_rekey E k k' hm = Some (False, hm)"
    and "HashMap_rekey_lockless E k k' hm = Some (False, hm)"
proof -
  have idx: "unat (GetInnerMapIndex E (Hash64 E k)) < length (innerMaps hm)"
    by (rule map_wf_index [OF inv])
  from alloc map_wf_shard [OF inv, of k] have si: "shard_wf E (mem hm) (shard_of E hm k)"
    by (simp add: shard_ok_def)
  from np present_iff [OF inv, of k] alloc
  have "\<forall>q \<in> set (reachable_nodes (shard_of E hm k)). node_key (mem hm) q \<noteq> Some k" by blast
  from HashMap_find_absent [OF idx si this] have f: "Find_Lockless E k hm = Some nullptr" by simp
  show "HashMap_rekey E k k' hm = Some (False, hm)"
    using f by (simp add: HashMap_rekey_def ReKey_Concurrent_def Find_Concurrent_def)
  show "HashMap_rekey_lockless E k k' hm = Some (False, hm)"
    using f by (simp add: HashMap_rekey_lockless_def ReKey_Lockless_def)
qed

lemma rekey_present_spec:
  fixes k k' :: "'k::linorder"
  assumes inv: "map_wf E hm"
    and same: "GetInnerMapIndex E (Hash64 E k) = GetInnerMapIndex E (Hash64 E k')"
    and ne: "k \<noteq> k'"
    and pr: "present E hm k"
    and bf: "bucket_field_ok E hm k"
    and R: "R = HashMap_rekey \<or> R = HashMap_rekey_lockless"
  shows "\<exists>hm'. R E k k' hm = Some (True, hm')
     \<and> (\<not> present E hm k' \<longrightarrow> HashMap_find E k' hm' = HashMap_find E k hm)
     \<and> (held_once E hm k \<longrightarrow> HashMap_find E k hm' = Some None)"
proof -
  let ?i = "unat (GetInnerMapIndex E (Hash64 E k))"
  let ?im = "shard_of E hm k"
  let ?h = "mem hm"
  let ?nb = "GetIndex (numBuckets ?im) (Hash64 E k')"
  have idx: "?i < length (innerMaps hm)" by (rule map_wf_index [OF inv])
  have sh: "shard_of E hm k' = ?im" using same by (simp add: shard_of_def)
  from pr present_iff [OF inv, of k] obtain q0 where
    q0: "q0 \<in> set (reachable_nodes ?im)" "node_key ?h q0 = Some k"
    and alloc: "?im \<noteq> InnerMap_init" by blast
  from alloc map_wf_shard [OF inv, of k] have si: "shard_wf E ?h ?im"
    by (simp add: shard_ok_def)
  from HashMap_find_present [OF idx si q0] obtain pNode n where
    q: "pNode \<in> set (reachable_nodes ?im)" and nn: "pNode \<noteq> nullptr"
    and n: "?h pNode = Some n" "key (data n) = k"
    and f: "Find_Lockless E k hm = Some pNode"
    and fv: "HashMap_find E k hm = Some (Some (value (data n)))" by blast
  from bf f n have bn: "bucket (data n) = GetIndex (numBuckets ?im) (Hash64 E k)"
    by (simp add: bucket_field_ok_def)
  let ?h' = "?h(pNode \<mapsto> n\<lparr>data := (data n)\<lparr>key := k', bucket := ?nb\<rparr>\<rparr>)"
  have "\<exists>B'. R E k k' hm
        = Some (True, hm\<lparr>mem := ?h', innerMaps := (innerMaps hm)[?i := ?im\<lparr>buckets := B'\<rparr>]\<rparr>)
     \<and> length B' = length (buckets ?im)
     \<and> (\<forall>b < length B'. set (B' ! b) \<subseteq> set (reachable_nodes ?im))
     \<and> pNode \<in> set (B' ! unat ?nb)"
  proof (cases "R = HashMap_rekey")
    case True
    from InnerMap_ReKey_Concurrent_spec [OF si q n bn, of k']
    obtain B' where b: "InnerMap_ReKey_Concurrent (Hash64 E k) (Hash64 E k') pNode k' (?h, ?im)
        = Some (True, ?h', ?im\<lparr>buckets := B'\<rparr>)"
      "length B' = length (buckets ?im)"
      "\<forall>b < length B'. set (B' ! b) \<subseteq> set (reachable_nodes ?im)"
      "pNode \<in> set (B' ! unat ?nb)" by blast
    have "R E k k' hm
        = Some (True, hm\<lparr>mem := ?h', innerMaps := (innerMaps hm)[?i := ?im\<lparr>buckets := B'\<rparr>]\<rparr>)"
      using True f nn n same [symmetric] idx b(1)
      by (simp add: HashMap_rekey_def ReKey_Concurrent_def Find_Concurrent_def
          ReKey_Concurrent_KeyValuePair_def Let_def innerMap_at_def shard_of_def)
    with b(2,3,4) show ?thesis by blast
  next
    case False
    with R have RL: "R = HashMap_rekey_lockless" by simp
    from InnerMap_ReKey_Lockless_spec [OF si q n bn, of k']
    obtain B' where b: "InnerMap_ReKey_Lockless (Hash64 E k) (Hash64 E k') pNode k' (?h, ?im)
        = Some (True, ?h', ?im\<lparr>buckets := B'\<rparr>)"
      "length B' = length (buckets ?im)"
      "\<forall>b < length B'. set (B' ! b) \<subseteq> set (reachable_nodes ?im)"
      "pNode \<in> set (B' ! unat ?nb)" by blast
    have "R E k k' hm
        = Some (True, hm\<lparr>mem := ?h', innerMaps := (innerMaps hm)[?i := ?im\<lparr>buckets := B'\<rparr>]\<rparr>)"
      using RL f nn n same [symmetric] idx b(1)
      by (simp add: HashMap_rekey_lockless_def ReKey_Lockless_def
          ReKey_Lockless_KeyValuePair_def Let_def innerMap_at_def shard_of_def)
    with b(2,3,4) show ?thesis by blast
  qed
  then obtain B' where res: "R E k k' hm
        = Some (True, hm\<lparr>mem := ?h', innerMaps := (innerMaps hm)[?i := ?im\<lparr>buckets := B'\<rparr>]\<rparr>)"
     and B': "length B' = length (buckets ?im)"
      "\<forall>b < length B'. set (B' ! b) \<subseteq> set (reachable_nodes ?im)"
      "pNode \<in> set (B' ! unat ?nb)" by blast
  define hm' where "hm' = hm\<lparr>mem := ?h', innerMaps := (innerMaps hm)[?i := ?im\<lparr>buckets := B'\<rparr>]\<rparr>"
  have idx1: "unat (GetInnerMapIndex E (Hash64 E k)) < length (innerMaps hm')"
    and idx2: "unat (GetInnerMapIndex E (Hash64 E k')) < length (innerMaps hm')"
    using idx same by (simp_all add: hm'_def)
  have s1: "shard_of E hm' k = ?im\<lparr>buckets := B'\<rparr>" "shard_of E hm' k' = ?im\<lparr>buckets := B'\<rparr>"
    using idx same by (simp_all add: shard_of_def hm'_def)
  have m': "mem hm' = ?h'" by (simp add: hm'_def)
  note fs = rekey_result_finds [OF si q n ne B' refl]
  have c1: "\<not> present E hm k' \<longrightarrow> HashMap_find E k' hm' = HashMap_find E k hm"
  proof
    assume "\<not> present E hm k'"
    with present_iff [OF inv, of k'] sh alloc
    have "\<forall>q \<in> set (reachable_nodes ?im). node_key ?h q \<noteq> Some k'" by auto
    from fs(1) [OF this]
    have "HashMap_find E k' hm' = Some (Some (value (data n)))"
      using nn by (simp add: HashMap_find_unfold [OF idx2] s1 m')
    with fv show "HashMap_find E k' hm' = HashMap_find E k hm" by simp
  qed
  have c2: "held_once E hm k \<longrightarrow> HashMap_find E k hm' = Some None"
  proof
    assume "held_once E hm k"
    moreover have "node_key ?h pNode = Some k" using n by (simp add: node_key_def)
    ultimately have "\<forall>q \<in> set (reachable_nodes ?im). node_key ?h q = Some k \<longrightarrow> q = pNode"
      using q by (auto simp: held_once_def)
    from fs(2) [OF this]
    show "HashMap_find E k hm' = Some None"
      by (simp add: HashMap_find_unfold [OF idx1] s1 m')
  qed
  from res c1 c2 show ?thesis unfolding hm'_def [symmetric] by blast
qed

text \<open>
  C1, as stated, fails. The claim: \<open>rekey(k_old, k_new)\<close> returns true iff \<open>k_old\<close> was
  present and \<open>k_new\<close> was not, and after true \<open>find(k_new)\<close> returns the value that
  \<open>find(k_old)\<close> returned before. After \<open>insert(1, 10)\<close> and \<open>insert(5, 50)\<close> on the
  constructed map, the keys 1 and 5 are both present, in the same bucket of the same
  shard. \<open>rekey(1, 5)\<close> only writes the key 5 into the node of key 1 and returns
  true; afterwards \<open>find(5)\<close> returns true with 50, the value of the other node, and
  \<open>find(1)\<close> returns false.
\<close>

theorem rekey_onto_present_key_counterexample:
  "Option.bind
     (run_operations example_env [Op_insert 1 10, Op_insert 5 50] example_empty)
     (rekey_observation example_env 1 5)
   = Some (True, Some (Some 50), Some None)"
  by code_simp

text \<open>
  C1, amended: for distinct keys \<open>k\<close> and \<open>k'\<close> that belong to the same shard (the same
  bucket or different buckets) of a well-formed map (\<open>map_wf\<close>):
  if \<open>k\<close> is present and the node found for it carries the index of its bucket
  (\<open>bucket_field_ok\<close>), \<open>rekey(k, k')\<close> returns true, whether or not \<open>k'\<close> is present;
  then, if \<open>k'\<close> was not present, \<open>find(k')\<close> returns what \<open>find(k)\<close> returned before,
  and, if no other node held \<open>k\<close> (\<open>held_once\<close>), \<open>find(k)\<close> returns false. If \<open>k\<close> is not
  present and its shard has a bucket array, \<open>rekey(k, k')\<close> returns false and leaves
  the map as it is. The same holds of the lockless variant. Nothing is said of keys
  that belong to different shards, of a shard without a bucket array, or of a node
  whose field \<open>bucket\<close> is not the index of its bucket. Keys are compared by a linear
  order.
\<close>

theorem rekey_within_shard:
  fixes k k' :: "'k::linorder"
  assumes "map_wf E hm"
    and "GetInnerMapIndex E (Hash64 E k) = GetInnerMapIndex E (Hash64 E k')"
    and "k \<noteq> k'"
  shows "(present E hm k \<and> bucket_field_ok E hm k \<longrightarrow>
            (\<exists>hm'. HashMap_rekey E k k' hm = Some (True, hm')
               \<and> (\<not> present E hm k' \<longrightarrow> HashMap_find E k' hm' = HashMap_find E k hm)
               \<and> (held_once E hm k \<longrightarrow> HashMap_find E k hm' = Some None))
          \<and> (\<exists>hm'. HashMap_rekey_lockless E k k' hm = Some (True, hm')
               \<and> (\<not> present E hm k' \<longrightarrow> HashMap_find E k' hm' = HashMap_find E k hm)
               \<and> (held_once E hm k \<longrightarrow> HashMap_find E k hm' = Some None)))
       \<and> (\<not> present E hm k \<and> shard_of E hm k \<noteq> InnerMap_init \<longrightarrow>
            HashMap_rekey E k k' hm = Some (False, hm)
          \<and> HashMap_rekey_lockless E k k' hm = Some (False, hm))"
proof (intro conjI impI)
  assume a: "present E hm k \<and> bucket_field_ok E hm k"
  then have pr: "present E hm k" and bf: "bucket_field_ok E hm k" by simp_all
  show "\<exists>hm'. HashMap_rekey E k k' hm = Some (True, hm')
               \<and> (\<not> present E hm k' \<longrightarrow> HashMap_find E k' hm' = HashMap_find E k hm)
               \<and> (held_once E hm k \<longrightarrow> HashMap_find E k hm' = Some None)"
    by (rule rekey_present_spec [OF assms pr bf]) simp
  show "\<exists>hm'. HashMap_rekey_lockless E k k' hm = Some (True, hm')
               \<and> (\<not> present E hm k' \<longrightarrow> HashMap_find E k' hm' = HashMap_find E k hm)
               \<and> (held_once E hm k \<longrightarrow> HashMap_find E k hm' = Some None)"
    by (rule rekey_present_spec [OF assms pr bf]) simp
next
  assume a: "\<not> present E hm k \<and> shard_of E hm k \<noteq> InnerMap_init"
  then show "HashMap_rekey E k k' hm = Some (False, hm)"
    using rekey_absent_spec(1) [OF assms(1)] by blast
  from a show "HashMap_rekey_lockless E k k' hm = Some (False, hm)"
    using rekey_absent_spec(2) [OF assms(1)] by blast
qed

theorem rekey_within_shard_witness:
  "(\<exists>hm'. HashMap_rekey example_env 1 9 example_two = Some (True, hm')
       \<and> HashMap_find example_env 9 hm' = Some (Some 10)
       \<and> HashMap_find example_env 1 hm' = Some None)
   \<and> HashMap_rekey example_env 13 9 example_two = Some (False, example_two)"
proof -
  have same: "GetInnerMapIndex example_env (Hash64 example_env 1)
      = GetInnerMapIndex example_env (Hash64 example_env 9)"
    "GetInnerMapIndex example_env (Hash64 example_env 13)
      = GetInnerMapIndex example_env (Hash64 example_env 9)" by code_simp+
  have sh: "shard_of example_env example_two 13 = innerMaps example_two ! 1"
    unfolding shard_of_def by code_simp
  have alloc: "shard_of example_env example_two 13 \<noteq> InnerMap_init"
    unfolding sh by (simp add: example_two_def InnerMap_init_def)
  have p: "present example_env example_two 1" "\<not> present example_env example_two 9"
    "\<not> present example_env example_two 13"
    "bucket_field_ok example_env example_two 1"
    "HashMap_find example_env 1 example_two = Some (Some 10)" by code_simp+
  have ne: "(1 :: u64) \<noteq> 9" "(13 :: u64) \<noteq> 9" by simp_all
  from rekey_within_shard [OF example_two_wf same(1) ne(1)] p example_two_held_once
  have "\<exists>hm'. HashMap_rekey example_env 1 9 example_two = Some (True, hm')
       \<and> HashMap_find example_env 9 hm' = Some (Some 10)
       \<and> HashMap_find example_env 1 hm' = Some None"
    by auto
  moreover from rekey_within_shard [OF example_two_wf same(2) ne(2)] p alloc
  have "HashMap_rekey example_env 13 9 example_two = Some (False, example_two)" by blast
  ultimately show ?thesis by simp
qed

end
